theory Spec2Isabelle
  imports Main "HOL-Library.Word"
begin

section \<open>Characters\<close>

text \<open>
  The scanner of \<^verbatim>\<open>cmd/grv/config_scan.go\<close> works on the runes that
  \<^verbatim>\<open>bufio.Reader.ReadRune\<close> delivers. A rune is a Unicode code point; it is
  modelled by its number. \<open>runes\<close> turns a literal into the rune list it stands for.
\<close>

type_synonym rune = nat

definition runes :: "string \<Rightarrow> rune list" where
  "runes s = map of_char s"

text \<open>
  Go's \<^verbatim>\<open>unicode.IsSpace\<close>: in Latin-1 the characters tab, newline, vertical
  tab, form feed, carriage return, space, U+0085 and U+00A0; beyond Latin-1 the
  White_Space table (U+1680, U+2000..U+200A, U+2028, U+2029, U+202F, U+205F, U+3000).
\<close>

definition IsSpace :: "rune \<Rightarrow> bool" where
  "IsSpace r =
     (if r \<le> 255 then r = 9 \<or> r = 10 \<or> r = 11 \<or> r = 12 \<or> r = 13 \<or> r = 32 \<or> r = 133 \<or> r = 160
      else r = 5760 \<or> (8192 \<le> r \<and> r \<le> 8202) \<or> r = 8232 \<or> r = 8233 \<or> r = 8239
           \<or> r = 8287 \<or> r = 12288)"

text \<open>
  The first byte of the UTF-8 encoding of a rune, which is what
  \<^verbatim>\<open>Peek(1)\<close> shows of the next rune.
\<close>

definition firstByte :: "rune \<Rightarrow> nat" where
  "firstByte r =
     (if r < 128 then r
      else if r < 2048 then 192 + r div 64
      else if r < 65536 then 224 + r div 4096
      else 240 + r div 262144)"

section \<open>Data model\<close>

datatype ConfigTokenType =
  CtkInvalid | CtkWord | CtkOption | CtkWhiteSpace | CtkComment | CtkShellCommand
  | CtkTerminator | CtkEOF

text \<open>
  The errors that reach the scanner: \<^verbatim>\<open>io.EOF\<close>,
  \<^verbatim>\<open>bufio.ErrInvalidUnreadRune\<close>, the lexical error of an unterminated string
  and the error of \<^verbatim>\<open>processStringWord\<close>, which carries the offending text.
\<close>

datatype error =
  EOF | ErrInvalidUnreadRune | UnterminatedString | InvalidStringWord "rune list"

text \<open>
  \<^verbatim>\<open>uint\<close> is taken as on Go's 64-bit targets: an unsigned 64-bit integer whose
  arithmetic wraps.
\<close>

record ConfigScannerPos =
  line :: "64 word"
  col :: "64 word"

text \<open>
  The token's fields \<^verbatim>\<open>value\<close> and \<^verbatim>\<open>err\<close> are \<open>tokenValue\<close> and
  \<open>tokenErr\<close> here. The token kinds are distinct flags in the source; only their
  identity matters to the scanner.
\<close>

record ConfigToken =
  tokenType :: ConfigTokenType
  tokenValue :: "rune list"
  startPos :: ConfigScannerPos
  endPos :: ConfigScannerPos
  tokenErr :: "error option"

text \<open>
  The part of \<^verbatim>\<open>bufio.Reader\<close> that the scanner uses: the runes not yet
  read, and the rune that \<^verbatim>\<open>UnreadRune\<close> can give back, which is there exactly
  when the last operation on the reader was a successful \<^verbatim>\<open>ReadRune\<close>.
  Whether \<^verbatim>\<open>Peek\<close> counts as such an operation changed between Go releases
  (since Go 1.12 an \<^verbatim>\<open>UnreadRune\<close> after a \<^verbatim>\<open>Peek\<close> fails), so the
  reader carries that choice in \<open>peekResets\<close> and every result below holds for both.
\<close>

record Reader =
  rest :: "rune list"
  lastRune :: "rune option"
  peekResets :: bool

record ConfigScanner =
  reader :: Reader
  pos :: ConfigScannerPos
  lastCharLineEnd :: bool
  lastLineEndCol :: "64 word"

section \<open>The buffered reader\<close>

text \<open>
  The input is a finite sequence of runes; once it is used up, \<^verbatim>\<open>ReadRune\<close> and
  \<^verbatim>\<open>Peek\<close> answer \<^verbatim>\<open>io.EOF\<close>, and no other error comes from the stream.
\<close>

definition ReadRune :: "Reader \<Rightarrow> (rune \<times> error option) \<times> Reader" where
  "ReadRune b =
     (case rest b of
        [] \<Rightarrow> ((0, Some EOF), b\<lparr>lastRune := None\<rparr>)
      | r # rs \<Rightarrow> ((r, None), b\<lparr>rest := rs, lastRune := Some r\<rparr>))"

definition UnreadRune :: "Reader \<Rightarrow> error option \<times> Reader" where
  "UnreadRune b =
     (case lastRune b of
        None \<Rightarrow> (Some ErrInvalidUnreadRune, b)
      | Some r \<Rightarrow> (None, b\<lparr>rest := r # rest b, lastRune := None\<rparr>))"

text \<open>\<^verbatim>\<open>Peek(1)\<close>: the next byte without consuming it, or \<^verbatim>\<open>io.EOF\<close>.\<close>

definition Peek :: "Reader \<Rightarrow> (nat list \<times> error option) \<times> Reader" where
  "Peek b =
     (let b' = (if peekResets b then b\<lparr>lastRune := None\<rparr> else b)
      in case rest b of
           [] \<Rightarrow> (([], Some EOF), b')
         | r # rs \<Rightarrow> (([firstByte r], None), b'))"

definition NewConfigScanner :: "bool \<Rightarrow> rune list \<Rightarrow> ConfigScanner" where
  "NewConfigScanner strict input =
     \<lparr>reader = \<lparr>rest = input, lastRune = None, peekResets = strict\<rparr>,
      pos = \<lparr>line = 1, col = 0\<rparr>,
      lastCharLineEnd = False,
      lastLineEndCol = 0\<rparr>"

section \<open>read and unread\<close>

definition read :: "ConfigScanner \<Rightarrow> (rune \<times> bool \<times> error option) \<times> ConfigScanner" where
  "read scanner =
     (case ReadRune (reader scanner) of ((char, err), rd) \<Rightarrow>
        let scanner = scanner\<lparr>reader := rd\<rparr> in
        if err = Some EOF then
          ((char, True, None),
           if col (pos scanner) = 0 then scanner\<lparr>pos := (pos scanner)\<lparr>col := 1\<rparr>\<rparr>
           else scanner)
        else if err = None then
          (let scanner =
             (if lastCharLineEnd scanner
              then scanner\<lparr>lastLineEndCol := col (pos scanner),
                           pos := \<lparr>line = line (pos scanner) + 1, col = 1\<rparr>\<rparr>
              else scanner\<lparr>pos := (pos scanner)\<lparr>col := col (pos scanner) + 1\<rparr>\<rparr>)
           in ((char, False, None), scanner\<lparr>lastCharLineEnd := (char = 10)\<rparr>))
        else ((char, False, err), scanner))"

definition unread :: "ConfigScanner \<Rightarrow> error option \<times> ConfigScanner" where
  "unread scanner =
     (case UnreadRune (reader scanner) of (err, rd) \<Rightarrow>
        let scanner = scanner\<lparr>reader := rd\<rparr> in
        if err \<noteq> None then (err, scanner)
        else if 1 < line (pos scanner) \<and> col (pos scanner) = 1
          then (None, scanner\<lparr>pos := \<lparr>line = line (pos scanner) - 1,
                                        col = lastLineEndCol scanner\<rparr>,
                               lastCharLineEnd := True\<rparr>)
          else (None, scanner\<lparr>pos := (pos scanner)\<lparr>col := col (pos scanner) - 1\<rparr>,
                               lastCharLineEnd := False\<rparr>))"

definition peek :: "ConfigScanner \<Rightarrow> (nat list \<times> error option) \<times> ConfigScanner" where
  "peek scanner =
     (case Peek (reader scanner) of (r, rd) \<Rightarrow> (r, scanner\<lparr>reader := rd\<rparr>))"

definition remaining :: "ConfigScanner \<Rightarrow> nat" where
  "remaining scanner = length (rest (reader scanner))"

section \<open>Sub-scanners\<close>

text \<open>
  Each loop of a sub-scanner is a recursive function on the scanner; the number of
  runes left decreases with every round, so every loop ends. A loop returns its error
  and its buffer. \<^verbatim>\<open>bytes.Buffer.WriteRune\<close> always returns a nil error, so it is the
  append to the buffer and the returns on its error are left out.
\<close>

function scanWord_loop ::
  "rune list \<Rightarrow> ConfigScanner \<Rightarrow> (error option \<times> rune list) \<times> ConfigScanner" where
  "scanWord_loop buffer scanner =
     (case read scanner of ((char, eof, err), s1) \<Rightarrow>
        if err \<noteq> None then ((err, buffer), s1)
        else if eof then ((None, buffer), s1)
        else if IsSpace char then
          (case unread s1 of (uerr, s2) \<Rightarrow> ((uerr, buffer), s2))
        else scanWord_loop (buffer @ [char]) s1)"
  by pat_completeness auto
termination
  by (relation "measure (\<lambda>(buffer, scanner). remaining scanner)")
     (auto simp: read_def ReadRune_def remaining_def Let_def split: list.splits if_splits)

text \<open>
  A token as the sub-scanners build it: \<^verbatim>\<open>startPos\<close> and the error are left
  at their zero values.
\<close>

definition newToken :: "ConfigTokenType \<Rightarrow> rune list \<Rightarrow> ConfigScannerPos \<Rightarrow> ConfigToken" where
  "newToken t v p =
     \<lparr>tokenType = t, tokenValue = v, startPos = \<lparr>line = 0, col = 0\<rparr>, endPos = p,
      tokenErr = None\<rparr>"

definition scanWord :: "ConfigScanner \<Rightarrow> (ConfigToken option \<times> error option) \<times> ConfigScanner" where
  "scanWord scanner =
     (case scanWord_loop [] scanner of ((err, buffer), s) \<Rightarrow>
        if err \<noteq> None then ((None, err), s)
        else ((Some (newToken CtkWord buffer (pos s)), None), s))"

function scanToEndOfLine_loop ::
  "rune list \<Rightarrow> ConfigScanner \<Rightarrow> (error option \<times> rune list) \<times> ConfigScanner" where
  "scanToEndOfLine_loop buffer scanner =
     (case read scanner of ((char, eof, err), s1) \<Rightarrow>
        if err \<noteq> None then ((err, buffer), s1)
        else if eof then ((None, buffer), s1)
        else if char = 10 then
          (case unread s1 of (uerr, s2) \<Rightarrow> ((uerr, buffer), s2))
        else scanToEndOfLine_loop (buffer @ [char]) s1)"
  by pat_completeness auto
termination
  by (relation "measure (\<lambda>(buffer, scanner). remaining scanner)")
     (auto simp: read_def ReadRune_def remaining_def Let_def split: list.splits if_splits)

definition scanToEndOfLine ::
  "ConfigTokenType \<Rightarrow> ConfigScanner \<Rightarrow> (ConfigToken option \<times> error option) \<times> ConfigScanner" where
  "scanToEndOfLine t scanner =
     (case scanToEndOfLine_loop [] scanner of ((err, buffer), s) \<Rightarrow>
        if err \<noteq> None then ((None, err), s)
        else ((Some (newToken t buffer (pos s)), None), s))"

definition scanComment :: "ConfigScanner \<Rightarrow> (ConfigToken option \<times> error option) \<times> ConfigScanner" where
  "scanComment scanner = scanToEndOfLine CtkComment scanner"

definition scanShellCommand :: "ConfigScanner \<Rightarrow> (ConfigToken option \<times> error option) \<times> ConfigScanner" where
  "scanShellCommand scanner = scanToEndOfLine CtkShellCommand scanner"

text \<open>
  The loop of \<^verbatim>\<open>scanWhiteSpace\<close>, with its two loop variables
  \<^verbatim>\<open>escape\<close> and \<^verbatim>\<open>buffer\<close>. A \<^verbatim>\<open>continue\<close> is the recursive call
  with \<^verbatim>\<open>escape\<close> as it stands; falling out of the switch is the recursive call with
  \<^verbatim>\<open>escape\<close> reset.
\<close>

function scanWhiteSpace_loop ::
  "bool \<Rightarrow> rune list \<Rightarrow> ConfigScanner \<Rightarrow> (error option \<times> rune list) \<times> ConfigScanner" where
  "scanWhiteSpace_loop escape buffer scanner =
     (case read scanner of ((char, eof, err), s1) \<Rightarrow>
        if err \<noteq> None then ((err, buffer), s1)
        else if eof then ((None, buffer), s1)
        else if char = 92 then
          (case peek s1 of ((nextBytes, perr), s2) \<Rightarrow>
             if perr \<noteq> None then ((perr, buffer), s2)
             else if length nextBytes = 1 \<and> nextBytes ! 0 = 10
               then scanWhiteSpace_loop True buffer s2
             else (case unread s2 of (uerr, s3) \<Rightarrow> ((uerr, buffer), s3)))
        else if char = 10 then
          (if \<not> escape
           then (case unread s1 of (uerr, s2) \<Rightarrow> ((uerr, buffer), s2))
           else scanWhiteSpace_loop False buffer s1)
        else if \<not> IsSpace char then
          (case unread s1 of (uerr, s2) \<Rightarrow> ((uerr, buffer), s2))
        else scanWhiteSpace_loop False (buffer @ [char]) s1)"
  by pat_completeness auto
termination
  by (relation "measure (\<lambda>(escape, buffer, scanner). remaining scanner)")
     (auto simp: read_def ReadRune_def peek_def Peek_def remaining_def Let_def
        split: list.splits if_splits)

definition scanWhiteSpace :: "ConfigScanner \<Rightarrow> (ConfigToken option \<times> error option) \<times> ConfigScanner" where
  "scanWhiteSpace scanner =
     (case scanWhiteSpace_loop False [] scanner of ((err, buffer), s) \<Rightarrow>
        if err \<noteq> None then ((None, err), s)
        else ((Some (newToken CtkWhiteSpace buffer (pos s)), None), s))"

text \<open>
  \<^verbatim>\<open>processStringWord\<close>: the loop over the interior of the string, then the
  function with its check of the two quotes.
\<close>

fun processStringWord_loop :: "bool \<Rightarrow> rune list \<Rightarrow> rune list \<Rightarrow> rune list" where
  "processStringWord_loop escape buffer [] = buffer"
| "processStringWord_loop escape buffer (char # chars) =
     (if escape then
        processStringWord_loop False
          (if char = 110 then buffer @ [10]
           else if char = 116 then buffer @ [9]
           else buffer @ [char]) chars
      else if char = 92 then processStringWord_loop True buffer chars
      else processStringWord_loop False (buffer @ [char]) chars)"

definition processStringWord :: "rune list \<Rightarrow> rune list \<times> error option" where
  "processStringWord str =
     (let chars = str in
      if length chars < 2 \<or> chars ! 0 \<noteq> 34 \<or> chars ! (length chars - 1) \<noteq> 34
      then (str, Some (InvalidStringWord str))
      else (processStringWord_loop False [] (take (length chars - 1 - 1) (drop 1 chars)), None))"

text \<open>
  The loop of \<^verbatim>\<open>scanStringWord\<close>. It returns the error, the flag
  \<^verbatim>\<open>closingQuoteFound\<close> and the raw buffer.
\<close>

function scanStringWord_loop ::
  "bool \<Rightarrow> rune list \<Rightarrow> ConfigScanner \<Rightarrow> (error option \<times> bool \<times> rune list) \<times> ConfigScanner" where
  "scanStringWord_loop escape buffer scanner =
     (case read scanner of ((char, eof, err), s1) \<Rightarrow>
        if err \<noteq> None then ((err, False, buffer), s1)
        else if eof then ((None, False, buffer), s1)
        else if char = 92 then
          (if \<not> escape then scanStringWord_loop True (buffer @ [char]) s1
           else scanStringWord_loop False (buffer @ [char]) s1)
        else if char = 34 then
          (if \<not> escape then ((None, True, buffer @ [char]), s1)
           else scanStringWord_loop False (buffer @ [char]) s1)
        else scanStringWord_loop False (buffer @ [char]) s1)"
  by pat_completeness auto
termination
  by (relation "measure (\<lambda>(escape, buffer, scanner). remaining scanner)")
     (auto simp: read_def ReadRune_def remaining_def Let_def split: list.splits if_splits)

definition scanStringWord :: "ConfigScanner \<Rightarrow> (ConfigToken option \<times> error option) \<times> ConfigScanner" where
  "scanStringWord scanner =
     (case read scanner of ((char, eof, err), s1) \<Rightarrow>
        if err \<noteq> None \<or> eof then ((None, err), s1)
        else
          (case scanStringWord_loop False [char] s1 of ((lerr, closingQuoteFound, buffer), s2) \<Rightarrow>
             if lerr \<noteq> None then ((None, lerr), s2)
             else if closingQuoteFound then
               (case processStringWord buffer of (word, perr) \<Rightarrow>
                  if perr \<noteq> None then ((None, perr), s2)
                  else ((Some (newToken CtkWord word (pos s2)), None), s2))
             else
               ((Some ((newToken CtkInvalid buffer (pos s2))
                        \<lparr>tokenErr := Some UnterminatedString\<rparr>), None), s2)))"

section \<open>Scan\<close>

text \<open>
  The switch of \<^verbatim>\<open>Scan\<close>, which yields the token and the error, and then
  \<^verbatim>\<open>Scan\<close> itself, which stores \<^verbatim>\<open>startPos\<close> in the token if there
  is one.
\<close>

definition Scan_switch ::
  "rune \<Rightarrow> bool \<Rightarrow> error option \<Rightarrow> ConfigScanner
     \<Rightarrow> (ConfigToken option \<times> error option) \<times> ConfigScanner" where
  "Scan_switch char eof err scanner =
     (if err \<noteq> None then ((None, err), scanner)
      else if eof then ((Some (newToken CtkEOF [] (pos scanner)), None), scanner)
      else if char = 10 then ((Some (newToken CtkTerminator [char] (pos scanner)), None), scanner)
      else if IsSpace char then
        (case unread scanner of (uerr, s1) \<Rightarrow>
           if uerr \<noteq> None then ((None, uerr), s1) else scanWhiteSpace s1)
      else if char = 35 then
        (case unread scanner of (uerr, s1) \<Rightarrow>
           if uerr \<noteq> None then ((None, uerr), s1) else scanComment s1)
      else if char = 33 \<or> char = 64 then
        (case unread scanner of (uerr, s1) \<Rightarrow>
           if uerr \<noteq> None then ((None, uerr), s1) else scanShellCommand s1)
      else if char = 45 then
        (case peek scanner of ((nextBytes, perr), s1) \<Rightarrow>
           if perr \<noteq> None then ((None, perr), s1)
           else if length nextBytes = 1 \<and> nextBytes ! 0 = 45 then
             (case scanWord s1 of ((token, werr), s2) \<Rightarrow>
                (case token of
                   Some t \<Rightarrow>
                     if tokenType t \<noteq> CtkInvalid
                     then ((Some (t\<lparr>tokenType := CtkOption,
                                       tokenValue := 45 # tokenValue t\<rparr>), werr), s2)
                     else ((token, werr), s2)
                 | None \<Rightarrow> ((token, werr), s2)))
           else
             (case unread s1 of (uerr, s2) \<Rightarrow>
                if uerr \<noteq> None then ((None, uerr), s2) else scanWord s2))
      else if char = 34 then
        (case unread scanner of (uerr, s1) \<Rightarrow>
           if uerr \<noteq> None then ((None, uerr), s1) else scanStringWord s1)
      else
        (case unread scanner of (uerr, s1) \<Rightarrow>
           if uerr \<noteq> None then ((None, uerr), s1) else scanWord s1))"

definition Scan :: "ConfigScanner \<Rightarrow> (ConfigToken option \<times> error option) \<times> ConfigScanner" where
  "Scan scanner =
     (case read scanner of ((char, eof, err), s1) \<Rightarrow>
        let startPos0 = pos s1 in
        case Scan_switch char eof err s1 of ((token, serr), s2) \<Rightarrow>
          (case token of
             Some t \<Rightarrow> ((Some (t\<lparr>startPos := startPos0\<rparr>), serr), s2)
           | None \<Rightarrow> ((None, serr), s2)))"

section \<open>Successive calls and reachable scanner states\<close>

text \<open>The results of \<open>n\<close> successive calls of \<^verbatim>\<open>Scan\<close> on one scanner.\<close>

fun ScanSeq :: "nat \<Rightarrow> ConfigScanner \<Rightarrow> (ConfigToken option \<times> error option) list" where
  "ScanSeq 0 scanner = []"
| "ScanSeq (Suc n) scanner = (case Scan scanner of (r, s) \<Rightarrow> r # ScanSeq n s)"

text \<open>
  The scanner states that a run can be in: those that \<^verbatim>\<open>read\<close>,
  \<^verbatim>\<open>unread\<close> and the lookahead reach from a new scanner on the given input.
\<close>

inductive reachable :: "rune list \<Rightarrow> ConfigScanner \<Rightarrow> bool" for input :: "rune list" where
  reach_new: "reachable input (NewConfigScanner strict input)"
| reach_read: "reachable input s \<Longrightarrow> read s = (r, s') \<Longrightarrow> reachable input s'"
| reach_unread: "reachable input s \<Longrightarrow> unread s = (e, s') \<Longrightarrow> reachable input s'"
| reach_peek: "reachable input s \<Longrightarrow> peek s = (p, s') \<Longrightarrow> reachable input s'"

text \<open>
  What the counters of a reachable scanner satisfy while they have not wrapped around;
  \<open>k\<close> is the number of characters consumed. The line and the column are bounded by
  \<open>k\<close>, the column is 0 only before the first character, and the previous character can
  be a newline only if there is one.
\<close>

definition tracked :: "rune list \<Rightarrow> ConfigScanner \<Rightarrow> bool" where
  "tracked input s =
     (let k = length input - length (rest (reader s)); p = pos s
      in length (rest (reader s)) \<le> length input
         \<and> line p \<noteq> 0 \<and> unat (line p) \<le> max 1 k \<and> unat (col p) \<le> k
         \<and> (col p = 0 \<longrightarrow> k = 0 \<and> \<not> lastCharLineEnd s \<and> line p = 1)
         \<and> (lastCharLineEnd s \<longrightarrow> 1 \<le> k))"

text \<open>
  The part of the input that a scanner has consumed, and what ties the line-end flag
  to it: the input is the consumed part followed by what is left to read, and the flag
  is set exactly when the last consumed character is a newline.
\<close>

definition consumed :: "rune list \<Rightarrow> ConfigScanner \<Rightarrow> rune list" where
  "consumed input s = take (length input - length (rest (reader s))) input"

definition lineEndKnown :: "rune list \<Rightarrow> ConfigScanner \<Rightarrow> bool" where
  "lineEndKnown input s =
     (input = consumed input s @ rest (reader s)
      \<and> (lastCharLineEnd s \<longleftrightarrow> consumed input s \<noteq> [] \<and> last (consumed input s) = 10))"

section \<open>The specification's description of quoted strings\<close>

text \<open>
  Written from the specification's words, to compare the code with. \<open>spec_closingQuote\<close>
  looks for the first unescaped closing quote: a backslash escapes exactly the character
  after it. It yields the text before that quote and the input after it, or nothing when
  the input ends first. \<open>spec_unescape\<close> decodes an interior from left to right: a
  backslash and the character after it become one character, newline for \<open>n\<close>, tab
  for \<open>t\<close>, the character itself otherwise.
\<close>

fun spec_closingQuote :: "bool \<Rightarrow> rune list \<Rightarrow> (rune list \<times> rune list) option" where
  "spec_closingQuote escaped [] = None"
| "spec_closingQuote escaped (c # cs) =
     (if \<not> escaped \<and> c = 34 then Some ([], cs)
      else map_option (\<lambda>(interior, after). (c # interior, after))
             (spec_closingQuote (\<not> escaped \<and> c = 92) cs))"

definition spec_escaped :: "rune \<Rightarrow> rune" where
  "spec_escaped c = (if c = 110 then 10 else if c = 116 then 9 else c)"

fun spec_unescape :: "rune list \<Rightarrow> rune list" where
  "spec_unescape [] = []"
| "spec_unescape [c] = (if c = 92 then [] else [c])"
| "spec_unescape (c # d # cs) =
     (if c = 92 then spec_escaped d # spec_unescape cs else c # spec_unescape (d # cs))"

text \<open>
  White space as the specification describes it. A white-space run is made of white-space
  characters other than the newline and of line continuations, a backslash immediately
  followed by a newline; its value is the run without the continuations. A run ends at
  the end of the stream, at a bare newline, or at a character that is neither white space
  nor a backslash.
\<close>

fun spec_whiteSpaceRun :: "rune list \<Rightarrow> bool" where
  "spec_whiteSpaceRun [] = True"
| "spec_whiteSpaceRun [c] = (IsSpace c \<and> c \<noteq> 10)"
| "spec_whiteSpaceRun (c # d # cs) =
     (if c = 92 \<and> d = 10 then spec_whiteSpaceRun cs
      else IsSpace c \<and> c \<noteq> 10 \<and> spec_whiteSpaceRun (d # cs))"

fun spec_whiteSpaceValue :: "rune list \<Rightarrow> rune list" where
  "spec_whiteSpaceValue [] = []"
| "spec_whiteSpaceValue [c] = [c]"
| "spec_whiteSpaceValue (c # d # cs) =
     (if c = 92 \<and> d = 10 then spec_whiteSpaceValue cs
      else c # spec_whiteSpaceValue (d # cs))"

definition spec_endsWhiteSpace :: "rune list \<Rightarrow> bool" where
  "spec_endsWhiteSpace zs =
     (case zs of [] \<Rightarrow> True | z # _ \<Rightarrow> z = 10 \<or> (\<not> IsSpace z \<and> z \<noteq> 92))"

section \<open>Running the primitives\<close>

declare scanWord_loop.simps [simp del] scanToEndOfLine_loop.simps [simp del]
  scanWhiteSpace_loop.simps [simp del] scanStringWord_loop.simps [simp del]

lemma read_Cons:
  assumes "rest (reader s) = c # cs"
  shows "\<exists>s'. read s = ((c, False, None), s') \<and> rest (reader s') = cs
            \<and> lastRune (reader s') = Some c \<and> peekResets (reader s') = peekResets (reader s)"
  using assms by (simp add: read_def ReadRune_def Let_def)

lemma read_Nil:
  assumes "rest (reader s) = []"
  shows "\<exists>s'. read s = ((0, True, None), s') \<and> rest (reader s') = []
            \<and> lastRune (reader s') = None \<and> peekResets (reader s') = peekResets (reader s)"
  using assms by (simp add: read_def ReadRune_def Let_def)

lemma unread_Some:
  assumes "lastRune (reader s) = Some c"
  shows "\<exists>s'. unread s = (None, s') \<and> rest (reader s') = c # rest (reader s)
            \<and> lastRune (reader s') = None \<and> peekResets (reader s') = peekResets (reader s)"
  using assms by (simp add: unread_def UnreadRune_def Let_def)

lemma peek_Cons:
  assumes "rest (reader s) = c # cs"
  shows "\<exists>s'. peek s = (([firstByte c], None), s') \<and> rest (reader s') = c # cs
            \<and> peekResets (reader s') = peekResets (reader s)"
  using assms by (simp add: peek_def Peek_def Let_def)

lemma peek_Nil:
  assumes "rest (reader s) = []"
  shows "\<exists>s'. peek s = (([], Some EOF), s') \<and> rest (reader s') = []
            \<and> peekResets (reader s') = peekResets (reader s)"
  using assms by (simp add: peek_def Peek_def Let_def)

text \<open>
  The lookahead compares a byte with an ASCII character; the first byte of a rune is an
  ASCII character only if the rune is that character.
\<close>

lemma firstByte_ascii: "a < 128 \<Longrightarrow> firstByte r = a \<longleftrightarrow> r = a"
  by (auto simp: firstByte_def)

lemma not_IsSpace_dash: "\<not> IsSpace 45"
  by (simp add: IsSpace_def)

lemma not_IsSpace_backslash: "\<not> IsSpace 92"
  by (simp add: IsSpace_def)

section \<open>Plain words and options\<close>

lemma scanWord_loop_run:
  "rest (reader s) = cs \<Longrightarrow>
   \<exists>s'. scanWord_loop buffer s = ((None, buffer @ takeWhile (\<lambda>c. \<not> IsSpace c) cs), s')
        \<and> rest (reader s') = dropWhile (\<lambda>c. \<not> IsSpace c) cs
        \<and> peekResets (reader s') = peekResets (reader s)"
proof (induction cs arbitrary: buffer s)
  case Nil
  from read_Nil [OF Nil] obtain s1 where "read s = ((0, True, None), s1)" "rest (reader s1) = []"
    "peekResets (reader s1) = peekResets (reader s)"
    by blast
  then show ?case
    by (subst scanWord_loop.simps) simp
next
  case (Cons c cs)
  from read_Cons [OF Cons.prems] obtain s1 where
    s1: "read s = ((c, False, None), s1)" "rest (reader s1) = cs" "lastRune (reader s1) = Some c"
    "peekResets (reader s1) = peekResets (reader s)"
    by blast
  show ?case
  proof (cases "IsSpace c")
    case True
    from unread_Some [OF s1(3)] obtain s2 where
      "unread s1 = (None, s2)" "rest (reader s2) = c # cs"
      "peekResets (reader s2) = peekResets (reader s1)"
      using s1(2) by auto
    with s1 True show ?thesis
      by (subst scanWord_loop.simps) simp
  next
    case False
    from Cons.IH [OF s1(2), of "buffer @ [c]"] s1 False show ?thesis
      by (subst scanWord_loop.simps) simp
  qed
qed

lemma Scan_two_dashes:
  assumes "rest (reader s) = 45 # 45 # xs"
  shows "\<exists>t s'. Scan s = ((Some t, None), s')
           \<and> tokenType t = CtkOption
           \<and> tokenValue t = 45 # 45 # takeWhile (\<lambda>c. \<not> IsSpace c) xs
           \<and> tokenErr t = None
           \<and> rest (reader s') = dropWhile (\<lambda>c. \<not> IsSpace c) xs"
proof -
  from read_Cons [OF assms] obtain s1 where
    s1: "read s = ((45, False, None), s1)" "rest (reader s1) = 45 # xs"
    by blast
  from peek_Cons [OF s1(2)] obtain s2 where
    s2: "peek s1 = (([45], None), s2)" "rest (reader s2) = 45 # xs"
    by (auto simp: firstByte_def)
  from scanWord_loop_run [OF s2(2), of "[]"] obtain s3 where
    s3: "scanWord_loop [] s2 = ((None, 45 # takeWhile (\<lambda>c. \<not> IsSpace c) xs), s3)"
      "rest (reader s3) = dropWhile (\<lambda>c. \<not> IsSpace c) xs"
    by (auto simp: not_IsSpace_dash)
  show ?thesis
    using s1 s2 s3
    by (simp add: Scan_def Scan_switch_def scanWord_def newToken_def not_IsSpace_dash)
qed

lemma ScanSeq_verbose:
  "ScanSeq 2 (NewConfigScanner strict (runes ''--verbose'')) =
     [(Some \<lparr>tokenType = CtkOption, tokenValue = runes ''--verbose'',
              startPos = \<lparr>line = 1, col = 1\<rparr>, endPos = \<lparr>line = 1, col = 9\<rparr>,
              tokenErr = None\<rparr>, None),
      (Some \<lparr>tokenType = CtkEOF, tokenValue = [],
              startPos = \<lparr>line = 1, col = 9\<rparr>, endPos = \<lparr>line = 1, col = 9\<rparr>,
              tokenErr = None\<rparr>, None)]"
  (is "ScanSeq 2 (NewConfigScanner strict ?input) = ?result")
proof (cases strict)
  case True
  have "ScanSeq 2 (NewConfigScanner True ?input) = ?result"
    by code_simp
  with True show ?thesis by simp
next
  case False
  have "ScanSeq 2 (NewConfigScanner False ?input) = ?result"
    by code_simp
  with False show ?thesis by simp
qed

text \<open>
  C1, as the specification states it, does not hold: for the input \<open>--verbose\<close> the
  value of the Option token is \<open>--verbose\<close>, with both dashes, and not \<open>-verbose\<close>.
  \<^verbatim>\<open>Scan\<close> has consumed the first dash when it looks ahead, the word scanner reads
  from the second dash on, and the dash that \<^verbatim>\<open>Scan\<close> puts in front restores the
  first one.
\<close>

theorem C1_verbose_keeps_two_dashes:
  "map_option tokenValue (fst (fst (Scan (NewConfigScanner True (runes ''--verbose'')))))
     = Some (runes ''--verbose'')
   \<and> runes ''--verbose'' \<noteq> runes ''-verbose''"
  by code_simp

text \<open>
  C1, amended: for the input \<open>--verbose\<close>, \<^verbatim>\<open>Scan\<close> produces exactly one
  non-EOF token, of kind Option, whose value is \<open>--verbose\<close>; in general, when the
  input begins with two dashes, \<^verbatim>\<open>Scan\<close> returns without error a token of kind
  Option whose value is the source word as written, both leading dashes included, up to
  the next white space or the end of the stream, where the scanner is left.
\<close>

theorem C1_option_value:
  "(rest (reader s) = 45 # 45 # xs \<longrightarrow>
      (\<exists>t s'. Scan s = ((Some t, None), s')
         \<and> tokenType t = CtkOption
         \<and> tokenValue t = 45 # 45 # takeWhile (\<lambda>c. \<not> IsSpace c) xs
         \<and> tokenErr t = None
         \<and> rest (reader s') = dropWhile (\<lambda>c. \<not> IsSpace c) xs))
   \<and> ScanSeq 2 (NewConfigScanner strict (runes ''--verbose'')) =
       [(Some \<lparr>tokenType = CtkOption, tokenValue = runes ''--verbose'',
                startPos = \<lparr>line = 1, col = 1\<rparr>, endPos = \<lparr>line = 1, col = 9\<rparr>,
                tokenErr = None\<rparr>, None),
        (Some \<lparr>tokenType = CtkEOF, tokenValue = [],
                startPos = \<lparr>line = 1, col = 9\<rparr>, endPos = \<lparr>line = 1, col = 9\<rparr>,
                tokenErr = None\<rparr>, None)]"
  using Scan_two_dashes [of s xs] ScanSeq_verbose [of strict] by blast

theorem C1_option_value_witness:
  "rest (reader (NewConfigScanner True (runes ''--ab c''))) = 45 # 45 # runes ''ab c''
   \<and> (\<exists>t s'. Scan (NewConfigScanner True (runes ''--ab c'')) = ((Some t, None), s')
         \<and> tokenType t = CtkOption
         \<and> tokenValue t = runes ''--ab''
         \<and> tokenErr t = None
         \<and> rest (reader s') = runes '' c'')"
proof -
  have h: "rest (reader (NewConfigScanner True (runes ''--ab c''))) = 45 # 45 # runes ''ab c''"
    by (simp add: NewConfigScanner_def runes_def)
  have tw: "takeWhile (\<lambda>c. \<not> IsSpace c) (runes ''ab c'') = runes ''ab''"
    "dropWhile (\<lambda>c. \<not> IsSpace c) (runes ''ab c'') = runes '' c''"
    "45 # 45 # runes ''ab'' = runes ''--ab''"
    by (simp_all add: runes_def IsSpace_def)
  from C1_option_value [of "NewConfigScanner True (runes ''--ab c'')" "runes ''ab c''" True] h
  show ?thesis
    unfolding tw by blast
qed

section \<open>Comments, shell commands, white space\<close>

lemma scanToEndOfLine_loop_run:
  "rest (reader s) = cs \<Longrightarrow>
   \<exists>s'. scanToEndOfLine_loop buffer s = ((None, buffer @ takeWhile (\<lambda>c. c \<noteq> 10) cs), s')
        \<and> rest (reader s') = dropWhile (\<lambda>c. c \<noteq> 10) cs
        \<and> peekResets (reader s') = peekResets (reader s)"
proof (induction cs arbitrary: buffer s)
  case Nil
  from read_Nil [OF Nil] obtain s1 where "read s = ((0, True, None), s1)" "rest (reader s1) = []"
    "peekResets (reader s1) = peekResets (reader s)"
    by blast
  then show ?case
    by (subst scanToEndOfLine_loop.simps) simp
next
  case (Cons c cs)
  from read_Cons [OF Cons.prems] obtain s1 where
    s1: "read s = ((c, False, None), s1)" "rest (reader s1) = cs" "lastRune (reader s1) = Some c"
    "peekResets (reader s1) = peekResets (reader s)"
    by blast
  show ?case
  proof (cases "c = 10")
    case True
    from unread_Some [OF s1(3)] obtain s2 where
      "unread s1 = (None, s2)" "rest (reader s2) = c # cs"
      "peekResets (reader s2) = peekResets (reader s1)"
      using s1(2) by auto
    with s1 True show ?thesis
      by (subst scanToEndOfLine_loop.simps) simp
  next
    case False
    from Cons.IH [OF s1(2), of "buffer @ [c]"] s1 False show ?thesis
      by (subst scanToEndOfLine_loop.simps) simp
  qed
qed

lemma Scan_newline:
  assumes "rest (reader s) = 10 # xs"
  shows "\<exists>t s'. Scan s = ((Some t, None), s') \<and> tokenType t = CtkTerminator
           \<and> tokenValue t = [10] \<and> tokenErr t = None \<and> rest (reader s') = xs"
proof -
  from read_Cons [OF assms] obtain s1 where
    "read s = ((10, False, None), s1)" "rest (reader s1) = xs"
    by blast
  then show ?thesis
    by (simp add: Scan_def Scan_switch_def newToken_def)
qed

lemma Scan_to_end_of_line:
  assumes "rest (reader s) = c # xs" and c: "c = 35 \<or> c = 33 \<or> c = 64"
  shows "\<exists>t s'. Scan s = ((Some t, None), s')
           \<and> tokenType t = (if c = 35 then CtkComment else CtkShellCommand)
           \<and> tokenValue t = c # takeWhile (\<lambda>x. x \<noteq> 10) xs
           \<and> tokenErr t = None
           \<and> rest (reader s') = dropWhile (\<lambda>x. x \<noteq> 10) xs"
proof -
  from read_Cons [OF assms(1)] obtain s1 where
    s1: "read s = ((c, False, None), s1)" "rest (reader s1) = xs" "lastRune (reader s1) = Some c"
    by blast
  from unread_Some [OF s1(3)] s1(2) obtain s2 where
    s2: "unread s1 = (None, s2)" "rest (reader s2) = c # xs"
    by auto
  from c have nl: "c \<noteq> 10" and sp: "\<not> IsSpace c"
    by (auto simp: IsSpace_def)
  from scanToEndOfLine_loop_run [OF s2(2), of "[]"] nl obtain s3 where
    s3: "scanToEndOfLine_loop [] s2 = ((None, c # takeWhile (\<lambda>x. x \<noteq> 10) xs), s3)"
      "rest (reader s3) = dropWhile (\<lambda>x. x \<noteq> 10) xs"
    by auto
  show ?thesis
    using s1 s2 s3 c nl sp
    by (auto simp add: Scan_def Scan_switch_def scanComment_def scanShellCommand_def
        scanToEndOfLine_def newToken_def)
qed

lemma Scan_lone_dash:
  assumes "rest (reader s) = [45]"
  shows "fst (Scan s) = (None, Some EOF)"
proof -
  from read_Cons [OF assms] obtain s1 where
    s1: "read s = ((45, False, None), s1)" "rest (reader s1) = []"
    by blast
  from peek_Nil [OF s1(2)] obtain s2 where "peek s1 = (([], Some EOF), s2)"
    by blast
  with s1 show ?thesis
    by (simp add: Scan_def Scan_switch_def not_IsSpace_dash)
qed

lemma scanWhiteSpace_loop_run:
  "spec_whiteSpaceRun ws \<Longrightarrow> rest (reader s) = ws @ zs \<Longrightarrow>
   \<exists>s'. rest (reader s') = zs \<and> peekResets (reader s') = peekResets (reader s)
        \<and> scanWhiteSpace_loop escape buffer s
            = scanWhiteSpace_loop (escape \<and> ws = []) (buffer @ spec_whiteSpaceValue ws) s'"
proof (induction ws arbitrary: s escape buffer rule: spec_whiteSpaceRun.induct)
  case 1
  then show ?case by auto
next
  case (2 c)
  then have c: "IsSpace c" "c \<noteq> 10" "c \<noteq> 92"
    by (auto simp: not_IsSpace_backslash)
  from read_Cons [of s c zs] 2 obtain s1 where
    s1: "read s = ((c, False, None), s1)" "rest (reader s1) = zs"
    "peekResets (reader s1) = peekResets (reader s)"
    by auto
  have "scanWhiteSpace_loop escape buffer s = scanWhiteSpace_loop False (buffer @ [c]) s1"
    using s1 c by (subst scanWhiteSpace_loop.simps) simp
  with s1 show ?case by auto
next
  case (3 c d cs)
  show ?case
  proof (cases "c = 92 \<and> d = 10")
    case True
    from read_Cons [of s c "d # cs @ zs"] 3 obtain s1 where
      s1: "read s = ((92, False, None), s1)" "rest (reader s1) = 10 # cs @ zs"
      "peekResets (reader s1) = peekResets (reader s)"
      using True by auto
    from peek_Cons [OF s1(2)] obtain s2 where
      s2: "peek s1 = (([10], None), s2)" "rest (reader s2) = 10 # cs @ zs"
      "peekResets (reader s2) = peekResets (reader s1)"
      by (auto simp: firstByte_def)
    from read_Cons [OF s2(2)] obtain s3 where
      s3: "read s2 = ((10, False, None), s3)" "rest (reader s3) = cs @ zs"
      "peekResets (reader s3) = peekResets (reader s2)"
      by auto
    have a: "scanWhiteSpace_loop escape buffer s = scanWhiteSpace_loop True buffer s2"
      using s1 s2 by (subst scanWhiteSpace_loop.simps) simp
    have b: "scanWhiteSpace_loop True buffer s2 = scanWhiteSpace_loop False buffer s3"
      using s3 by (subst scanWhiteSpace_loop.simps) simp
    from "3.IH"(1) [OF True _ s3(2), of False buffer] "3.prems"(1) True obtain s' where
      "rest (reader s') = zs" "peekResets (reader s') = peekResets (reader s3)"
      "scanWhiteSpace_loop False buffer s3
         = scanWhiteSpace_loop False (buffer @ spec_whiteSpaceValue cs) s'"
      by auto
    with a b s1 s2 s3 True show ?thesis by auto
  next
    case False
    with "3.prems" have c: "IsSpace c" "c \<noteq> 10" "c \<noteq> 92" and run: "spec_whiteSpaceRun (d # cs)"
      by (auto simp: not_IsSpace_backslash split: if_splits)
    from read_Cons [of s c "d # cs @ zs"] 3 obtain s1 where
      s1: "read s = ((c, False, None), s1)" "rest (reader s1) = (d # cs) @ zs"
      "peekResets (reader s1) = peekResets (reader s)"
      by auto
    have a: "scanWhiteSpace_loop escape buffer s = scanWhiteSpace_loop False (buffer @ [c]) s1"
      using s1 c by (subst scanWhiteSpace_loop.simps) simp
    from "3.IH"(2) [OF False run s1(2), of False "buffer @ [c]"] obtain s' where
      "rest (reader s') = zs" "peekResets (reader s') = peekResets (reader s1)"
      "scanWhiteSpace_loop False (buffer @ [c]) s1
         = scanWhiteSpace_loop False (buffer @ [c] @ spec_whiteSpaceValue (d # cs)) s'"
      by auto
    with a s1 False show ?thesis by auto
  qed
qed

lemma scanWhiteSpace_loop_end:
  assumes "spec_endsWhiteSpace zs" "rest (reader s) = zs" "\<not> escape"
  shows "\<exists>s'. scanWhiteSpace_loop escape buffer s = ((None, buffer), s')
           \<and> rest (reader s') = zs"
proof (cases zs)
  case Nil
  from read_Nil [of s] Nil assms obtain s1 where
    "read s = ((0, True, None), s1)" "rest (reader s1) = []"
    by auto
  with Nil show ?thesis
    by (subst scanWhiteSpace_loop.simps) simp
next
  case (Cons z zs')
  from read_Cons [of s z zs'] Cons assms obtain s1 where
    s1: "read s = ((z, False, None), s1)" "rest (reader s1) = zs'"
    "lastRune (reader s1) = Some z"
    by auto
  from unread_Some [OF s1(3)] s1(2) obtain s2 where
    s2: "unread s1 = (None, s2)" "rest (reader s2) = z # zs'"
    by auto
  from assms(1) Cons have "z = 10 \<or> (\<not> IsSpace z \<and> z \<noteq> 92)"
    by (simp add: spec_endsWhiteSpace_def)
  with s1 s2 Cons assms(3) show ?thesis
    by (subst scanWhiteSpace_loop.simps) auto
qed

lemma scanWhiteSpace_loop_lone_backslash:
  assumes "rest (reader s) = [92]"
  shows "fst (scanWhiteSpace_loop escape buffer s) = (Some EOF, buffer)"
proof -
  from read_Cons [OF assms] obtain s1 where
    s1: "read s = ((92, False, None), s1)" "rest (reader s1) = []"
    by blast
  from peek_Nil [OF s1(2)] obtain s2 where "peek s1 = (([], Some EOF), s2)"
    by blast
  with s1 show ?thesis
    by (subst scanWhiteSpace_loop.simps) simp
qed


lemma spec_whiteSpaceRun_Cons:
  "IsSpace w \<Longrightarrow> w \<noteq> 10 \<Longrightarrow> spec_whiteSpaceRun ws \<Longrightarrow>
   spec_whiteSpaceRun (w # ws) \<and> spec_whiteSpaceValue (w # ws) = w # spec_whiteSpaceValue ws"
  by (cases ws) (auto simp: not_IsSpace_backslash)

lemma spec_whiteSpaceRun_continuation:
  "spec_whiteSpaceRun ws1 \<Longrightarrow> spec_whiteSpaceRun ws2 \<Longrightarrow>
   spec_whiteSpaceRun (ws1 @ 92 # 10 # ws2)
   \<and> spec_whiteSpaceValue (ws1 @ 92 # 10 # ws2)
       = spec_whiteSpaceValue ws1 @ spec_whiteSpaceValue ws2"
  by (induction ws1 rule: spec_whiteSpaceRun.induct) (auto simp: not_IsSpace_backslash)

lemma spec_whiteSpaceValue_plain:
  "spec_whiteSpaceRun ws \<Longrightarrow> 92 \<notin> set (spec_whiteSpaceValue ws) \<and> 10 \<notin> set (spec_whiteSpaceValue ws)"
  by (induction ws rule: spec_whiteSpaceRun.induct)
     (auto simp: not_IsSpace_backslash split: if_splits)

lemma Scan_white_space_loop:
  assumes "rest (reader s) = w # xs" "IsSpace w" "w \<noteq> 10"
  shows "\<exists>s1 s2. read s = ((w, False, None), s1) \<and> unread s1 = (None, s2)
           \<and> rest (reader s2) = w # xs
           \<and> Scan s =
               (case scanWhiteSpace_loop False [] s2 of ((err, buffer), s3) \<Rightarrow>
                  if err \<noteq> None then ((None, err), s3)
                  else ((Some ((newToken CtkWhiteSpace buffer (pos s3))\<lparr>startPos := pos s1\<rparr>),
                         None), s3))"
proof -
  from read_Cons [OF assms(1)] obtain s1 where
    s1: "read s = ((w, False, None), s1)" "rest (reader s1) = xs" "lastRune (reader s1) = Some w"
    by blast
  from unread_Some [OF s1(3)] s1(2) obtain s2 where
    s2: "unread s1 = (None, s2)" "rest (reader s2) = w # xs"
    by auto
  show ?thesis
    using s1 s2 assms(2,3)
    by (auto simp add: Scan_def Scan_switch_def scanWhiteSpace_def split: prod.splits)
qed

lemma Scan_white_space:
  assumes "rest (reader s) = w # ws @ zs" "IsSpace w" "w \<noteq> 10"
    and "spec_whiteSpaceRun ws" "spec_endsWhiteSpace zs"
  shows "\<exists>t s'. Scan s = ((Some t, None), s') \<and> tokenType t = CtkWhiteSpace
           \<and> tokenValue t = w # spec_whiteSpaceValue ws \<and> tokenErr t = None
           \<and> rest (reader s') = zs"
proof -
  from Scan_white_space_loop [OF assms(1-3)] obtain s1 s2 :: ConfigScanner where
    s2: "rest (reader s2) = (w # ws) @ zs"
    and scan: "Scan s =
               (case scanWhiteSpace_loop False [] s2 of ((err, buffer), s3) \<Rightarrow>
                  if err \<noteq> None then ((None, err), s3)
                  else ((Some ((newToken CtkWhiteSpace buffer (pos s3))\<lparr>startPos := pos s1\<rparr>),
                         None), s3))"
    by fastforce
  from spec_whiteSpaceRun_Cons [OF assms(2-4)] have
    run: "spec_whiteSpaceRun (w # ws)" and v: "spec_whiteSpaceValue (w # ws) = w # spec_whiteSpaceValue ws"
    by auto
  from scanWhiteSpace_loop_run [OF run s2, of False "[]"] v obtain s3 where
    s3: "rest (reader s3) = zs"
      "scanWhiteSpace_loop False [] s2 = scanWhiteSpace_loop False (w # spec_whiteSpaceValue ws) s3"
    by auto
  from scanWhiteSpace_loop_end [OF assms(5) s3(1), of False "w # spec_whiteSpaceValue ws"]
  obtain s4 where
    "scanWhiteSpace_loop False (w # spec_whiteSpaceValue ws) s3
       = ((None, w # spec_whiteSpaceValue ws), s4)" "rest (reader s4) = zs"
    by auto
  with scan s3 show ?thesis
    by (simp add: newToken_def)
qed

lemma Scan_white_space_lone_backslash:
  assumes "rest (reader s) = w # ws @ [92]" "IsSpace w" "w \<noteq> 10"
    and "spec_whiteSpaceRun ws"
  shows "fst (Scan s) = (None, Some EOF)"
proof -
  from Scan_white_space_loop [OF assms(1-3)] obtain s1 s2 :: ConfigScanner where
    s2: "rest (reader s2) = (w # ws) @ [92]"
    and scan: "Scan s =
               (case scanWhiteSpace_loop False [] s2 of ((err, buffer), s3) \<Rightarrow>
                  if err \<noteq> None then ((None, err), s3)
                  else ((Some ((newToken CtkWhiteSpace buffer (pos s3))\<lparr>startPos := pos s1\<rparr>),
                         None), s3))"
    by fastforce
  from spec_whiteSpaceRun_Cons [OF assms(2-4)] have
    run: "spec_whiteSpaceRun (w # ws)"
    by auto
  from scanWhiteSpace_loop_run [OF run s2, of False "[]"] obtain s3 where
    s3: "rest (reader s3) = [92]"
      "scanWhiteSpace_loop False [] s2
         = scanWhiteSpace_loop False (spec_whiteSpaceValue (w # ws)) s3"
    by auto
  from scanWhiteSpace_loop_lone_backslash [OF s3(1), of False "spec_whiteSpaceValue (w # ws)"]
  have "fst (scanWhiteSpace_loop False [] s2) = (Some EOF, spec_whiteSpaceValue (w # ws))"
    using s3(2) by simp
  with scan show ?thesis
    by (simp split: prod.splits)
qed

lemma strict_cases: "P True \<Longrightarrow> P False \<Longrightarrow> P strict"
  by (cases strict) simp_all

lemma ScanSeq_comment:
  "ScanSeq 2 (NewConfigScanner strict (runes ''# comment'' @ [10])) =
     [(Some \<lparr>tokenType = CtkComment, tokenValue = runes ''# comment'',
              startPos = \<lparr>line = 1, col = 1\<rparr>, endPos = \<lparr>line = 1, col = 9\<rparr>,
              tokenErr = None\<rparr>, None),
      (Some \<lparr>tokenType = CtkTerminator, tokenValue = [10],
              startPos = \<lparr>line = 1, col = 10\<rparr>, endPos = \<lparr>line = 1, col = 10\<rparr>,
              tokenErr = None\<rparr>, None)]"
  by (rule strict_cases [of _ strict]; code_simp)

lemma ScanSeq_continuation:
  "ScanSeq 4 (NewConfigScanner strict (runes ''a '' @ [92, 10] @ runes ''b'')) =
     [(Some \<lparr>tokenType = CtkWord, tokenValue = runes ''a'',
              startPos = \<lparr>line = 1, col = 1\<rparr>, endPos = \<lparr>line = 1, col = 1\<rparr>,
              tokenErr = None\<rparr>, None),
      (Some \<lparr>tokenType = CtkWhiteSpace, tokenValue = runes '' '',
              startPos = \<lparr>line = 1, col = 2\<rparr>, endPos = \<lparr>line = 1, col = 4\<rparr>,
              tokenErr = None\<rparr>, None),
      (Some \<lparr>tokenType = CtkWord, tokenValue = runes ''b'',
              startPos = \<lparr>line = 2, col = 1\<rparr>, endPos = \<lparr>line = 2, col = 1\<rparr>,
              tokenErr = None\<rparr>, None),
      (Some \<lparr>tokenType = CtkEOF, tokenValue = [],
              startPos = \<lparr>line = 2, col = 1\<rparr>, endPos = \<lparr>line = 2, col = 1\<rparr>,
              tokenErr = None\<rparr>, None)]"
  by (rule strict_cases [of _ strict]; code_simp)

lemma ScanSeq_lone_dash:
  "ScanSeq 1 (NewConfigScanner strict (runes ''-'')) = [(None, Some EOF)]"
  by (rule strict_cases [of _ strict]; code_simp)

lemma ScanSeq_trailing_dash:
  "ScanSeq 3 (NewConfigScanner strict (runes ''a -'')) =
     [(Some \<lparr>tokenType = CtkWord, tokenValue = runes ''a'',
              startPos = \<lparr>line = 1, col = 1\<rparr>, endPos = \<lparr>line = 1, col = 1\<rparr>,
              tokenErr = None\<rparr>, None),
      (Some \<lparr>tokenType = CtkWhiteSpace, tokenValue = runes '' '',
              startPos = \<lparr>line = 1, col = 2\<rparr>, endPos = \<lparr>line = 1, col = 2\<rparr>,
              tokenErr = None\<rparr>, None),
      (None, Some EOF)]"
  by (rule strict_cases [of _ strict]; code_simp)

lemma ScanSeq_trailing_backslash:
  "ScanSeq 2 (NewConfigScanner strict (runes ''a '' @ [92])) =
     [(Some \<lparr>tokenType = CtkWord, tokenValue = runes ''a'',
              startPos = \<lparr>line = 1, col = 1\<rparr>, endPos = \<lparr>line = 1, col = 1\<rparr>,
              tokenErr = None\<rparr>, None),
      (None, Some EOF)]"
  by (rule strict_cases [of _ strict]; code_simp)

text \<open>
  C8: when the next character is \<open>#\<close>, \<open>!\<close> or \<open>@\<close>, \<^verbatim>\<open>Scan\<close> returns
  a token whose value is that character and all that follows it up to, and without, the
  next newline or the end of the stream; its kind is Comment for \<open>#\<close> and
  ShellCommand for the other two. A newline that ended the token is still in the stream,
  and the next call returns it as a Terminator token. In particular \<open># comment\<close>
  followed by a newline yields a Comment token with value \<open># comment\<close> and then a
  Terminator token.
\<close>

theorem C8_comment_and_shell_command:
  "(rest (reader s) = c # xs \<and> (c = 35 \<or> c = 33 \<or> c = 64) \<longrightarrow>
      (\<exists>t s'. Scan s = ((Some t, None), s')
         \<and> tokenType t = (if c = 35 then CtkComment else CtkShellCommand)
         \<and> tokenValue t = c # takeWhile (\<lambda>x. x \<noteq> 10) xs
         \<and> tokenErr t = None
         \<and> rest (reader s') = dropWhile (\<lambda>x. x \<noteq> 10) xs
         \<and> (dropWhile (\<lambda>x. x \<noteq> 10) xs \<noteq> [] \<longrightarrow>
              (\<exists>t2 s2. Scan s' = ((Some t2, None), s2) \<and> tokenType t2 = CtkTerminator
                 \<and> tokenValue t2 = [10]))))
   \<and> ScanSeq 2 (NewConfigScanner strict (runes ''# comment'' @ [10])) =
       [(Some \<lparr>tokenType = CtkComment, tokenValue = runes ''# comment'',
                startPos = \<lparr>line = 1, col = 1\<rparr>, endPos = \<lparr>line = 1, col = 9\<rparr>,
                tokenErr = None\<rparr>, None),
        (Some \<lparr>tokenType = CtkTerminator, tokenValue = [10],
                startPos = \<lparr>line = 1, col = 10\<rparr>, endPos = \<lparr>line = 1, col = 10\<rparr>,
                tokenErr = None\<rparr>, None)]"
proof (intro conjI impI)
  assume h: "rest (reader s) = c # xs \<and> (c = 35 \<or> c = 33 \<or> c = 64)"
  from Scan_to_end_of_line [of s c xs] h obtain t s' where
    t: "Scan s = ((Some t, None), s')"
      "tokenType t = (if c = 35 then CtkComment else CtkShellCommand)"
      "tokenValue t = c # takeWhile (\<lambda>x. x \<noteq> 10) xs" "tokenErr t = None"
      "rest (reader s') = dropWhile (\<lambda>x. x \<noteq> 10) xs"
    by blast
  have "\<exists>t2 s2. Scan s' = ((Some t2, None), s2) \<and> tokenType t2 = CtkTerminator
          \<and> tokenValue t2 = [10]"
    if ne: "dropWhile (\<lambda>x. x \<noteq> 10) xs \<noteq> []"
  proof -
    from ne have "hd (dropWhile (\<lambda>x. x \<noteq> 10) xs) = 10"
      using hd_dropWhile [of "\<lambda>x. x \<noteq> 10" xs] by simp
    with ne t(5) have "rest (reader s') = 10 # tl (dropWhile (\<lambda>x. x \<noteq> 10) xs)"
      by (cases "dropWhile (\<lambda>x. x \<noteq> 10) xs") simp_all
    from Scan_newline [OF this] show ?thesis by blast
  qed
  with t show "\<exists>t s'. Scan s = ((Some t, None), s')
         \<and> tokenType t = (if c = 35 then CtkComment else CtkShellCommand)
         \<and> tokenValue t = c # takeWhile (\<lambda>x. x \<noteq> 10) xs
         \<and> tokenErr t = None
         \<and> rest (reader s') = dropWhile (\<lambda>x. x \<noteq> 10) xs
         \<and> (dropWhile (\<lambda>x. x \<noteq> 10) xs \<noteq> [] \<longrightarrow>
              (\<exists>t2 s2. Scan s' = ((Some t2, None), s2) \<and> tokenType t2 = CtkTerminator
                 \<and> tokenValue t2 = [10]))"
    by blast
qed (rule ScanSeq_comment)

theorem C8_comment_and_shell_command_witness:
  "(rest (reader (NewConfigScanner True [33, 108, 115, 10, 120])) = 33 # [108, 115, 10, 120]
      \<and> ((33::nat) = 35 \<or> (33::nat) = 33 \<or> (33::nat) = 64))
   \<and> (\<exists>t s'. Scan (NewConfigScanner True [33, 108, 115, 10, 120]) = ((Some t, None), s')
         \<and> tokenType t = CtkShellCommand
         \<and> tokenValue t = [33, 108, 115]
         \<and> rest (reader s') = [10, 120]
         \<and> (\<exists>t2 s2. Scan s' = ((Some t2, None), s2) \<and> tokenType t2 = CtkTerminator
                 \<and> tokenValue t2 = [10]))"
  using C8_comment_and_shell_command
    [of "NewConfigScanner True [33, 108, 115, 10, 120]" 33 "[108, 115, 10, 120]" True]
  by (simp add: NewConfigScanner_def) blast

text \<open>
  C9: when the stream ends immediately after a \<open>-\<close> that \<^verbatim>\<open>Scan\<close> dispatches
  on, \<^verbatim>\<open>Scan\<close> returns no token and the end-of-stream error of the lookahead;
  the same happens when the backslash that follows a white-space run is the last
  character of the stream. So for the inputs \<open>-\<close>, \<open>a -\<close> and \<open>a \\\<close>.
\<close>

theorem C9_lookahead_at_end_of_stream:
  "(rest (reader s) = [45] \<longrightarrow> fst (Scan s) = (None, Some EOF))
   \<and> (rest (reader s') = w # ws @ [92] \<and> IsSpace w \<and> w \<noteq> 10 \<and> spec_whiteSpaceRun ws \<longrightarrow>
        fst (Scan s') = (None, Some EOF))
   \<and> ScanSeq 1 (NewConfigScanner strict (runes ''-'')) = [(None, Some EOF)]
   \<and> ScanSeq 3 (NewConfigScanner strict (runes ''a -'')) =
       [(Some \<lparr>tokenType = CtkWord, tokenValue = runes ''a'',
                startPos = \<lparr>line = 1, col = 1\<rparr>, endPos = \<lparr>line = 1, col = 1\<rparr>,
                tokenErr = None\<rparr>, None),
        (Some \<lparr>tokenType = CtkWhiteSpace, tokenValue = runes '' '',
                startPos = \<lparr>line = 1, col = 2\<rparr>, endPos = \<lparr>line = 1, col = 2\<rparr>,
                tokenErr = None\<rparr>, None),
        (None, Some EOF)]
   \<and> ScanSeq 2 (NewConfigScanner strict (runes ''a '' @ [92])) =
       [(Some \<lparr>tokenType = CtkWord, tokenValue = runes ''a'',
                startPos = \<lparr>line = 1, col = 1\<rparr>, endPos = \<lparr>line = 1, col = 1\<rparr>,
                tokenErr = None\<rparr>, None),
        (None, Some EOF)]"
  using Scan_lone_dash [of s] Scan_white_space_lone_backslash [of s' w ws]
    ScanSeq_lone_dash [of strict] ScanSeq_trailing_dash [of strict]
    ScanSeq_trailing_backslash [of strict]
  by blast

theorem C9_lookahead_at_end_of_stream_witness:
  "rest (reader (NewConfigScanner True [45])) = [45]
   \<and> fst (Scan (NewConfigScanner True [45])) = (None, Some EOF)
   \<and> rest (reader (NewConfigScanner True [32, 92, 10, 9, 92])) = 32 # [92, 10, 9] @ [92]
   \<and> IsSpace 32 \<and> (32::nat) \<noteq> 10 \<and> spec_whiteSpaceRun [92, 10, 9]
   \<and> fst (Scan (NewConfigScanner True [32, 92, 10, 9, 92])) = (None, Some EOF)"
  using C9_lookahead_at_end_of_stream
    [of "NewConfigScanner True [45]" "NewConfigScanner True [32, 92, 10, 9, 92]" 32
        "[92, 10, 9]" True]
  by (simp add: NewConfigScanner_def IsSpace_def)

text \<open>
  C6: in a white-space run that contains a backslash immediately followed by a newline,
  the white-space scanner consumes both characters, puts neither into the value and goes
  on collecting white space after them into the same token: the token's value is the
  white space before and after the continuation, it holds no backslash and no newline,
  and the scanner is left where the run ends. In particular \<open>a \\\<close>, newline,
  \<open>b\<close> yields a Word, one WhiteSpace token that spans the continuation, and a Word.
\<close>

theorem C6_line_continuation:
  "(rest (reader s) = w # ws1 @ 92 # 10 # ws2 @ zs \<and> IsSpace w \<and> w \<noteq> 10
      \<and> spec_whiteSpaceRun ws1 \<and> spec_whiteSpaceRun ws2 \<and> spec_endsWhiteSpace zs \<longrightarrow>
      (\<exists>t s'. Scan s = ((Some t, None), s') \<and> tokenType t = CtkWhiteSpace
         \<and> tokenValue t = w # spec_whiteSpaceValue ws1 @ spec_whiteSpaceValue ws2
         \<and> 92 \<notin> set (tokenValue t) \<and> 10 \<notin> set (tokenValue t)
         \<and> tokenErr t = None
         \<and> rest (reader s') = zs))
   \<and> ScanSeq 4 (NewConfigScanner strict (runes ''a '' @ [92, 10] @ runes ''b'')) =
       [(Some \<lparr>tokenType = CtkWord, tokenValue = runes ''a'',
                startPos = \<lparr>line = 1, col = 1\<rparr>, endPos = \<lparr>line = 1, col = 1\<rparr>,
                tokenErr = None\<rparr>, None),
        (Some \<lparr>tokenType = CtkWhiteSpace, tokenValue = runes '' '',
                startPos = \<lparr>line = 1, col = 2\<rparr>, endPos = \<lparr>line = 1, col = 4\<rparr>,
                tokenErr = None\<rparr>, None),
        (Some \<lparr>tokenType = CtkWord, tokenValue = runes ''b'',
                startPos = \<lparr>line = 2, col = 1\<rparr>, endPos = \<lparr>line = 2, col = 1\<rparr>,
                tokenErr = None\<rparr>, None),
        (Some \<lparr>tokenType = CtkEOF, tokenValue = [],
                startPos = \<lparr>line = 2, col = 1\<rparr>, endPos = \<lparr>line = 2, col = 1\<rparr>,
                tokenErr = None\<rparr>, None)]"
proof (intro conjI impI)
  assume h: "rest (reader s) = w # ws1 @ 92 # 10 # ws2 @ zs \<and> IsSpace w \<and> w \<noteq> 10
      \<and> spec_whiteSpaceRun ws1 \<and> spec_whiteSpaceRun ws2 \<and> spec_endsWhiteSpace zs"
  then have run: "spec_whiteSpaceRun (ws1 @ 92 # 10 # ws2)"
    and v: "spec_whiteSpaceValue (ws1 @ 92 # 10 # ws2)
              = spec_whiteSpaceValue ws1 @ spec_whiteSpaceValue ws2"
    using spec_whiteSpaceRun_continuation [of ws1 ws2] by simp_all
  from h have r: "rest (reader s) = w # (ws1 @ 92 # 10 # ws2) @ zs"
    by simp
  from h have w: "w \<noteq> 92" "w \<noteq> 10"
    using not_IsSpace_backslash by auto
  from h have plain: "92 \<notin> set (spec_whiteSpaceValue ws1) \<and> 10 \<notin> set (spec_whiteSpaceValue ws1)"
    "92 \<notin> set (spec_whiteSpaceValue ws2) \<and> 10 \<notin> set (spec_whiteSpaceValue ws2)"
    using spec_whiteSpaceValue_plain by simp_all
  from Scan_white_space [OF r _ _ run] h v obtain t s' where
    "Scan s = ((Some t, None), s')" "tokenType t = CtkWhiteSpace"
    "tokenValue t = w # spec_whiteSpaceValue ws1 @ spec_whiteSpaceValue ws2"
    "tokenErr t = None" "rest (reader s') = zs"
    by auto
  with w plain show "\<exists>t s'. Scan s = ((Some t, None), s') \<and> tokenType t = CtkWhiteSpace
         \<and> tokenValue t = w # spec_whiteSpaceValue ws1 @ spec_whiteSpaceValue ws2
         \<and> 92 \<notin> set (tokenValue t) \<and> 10 \<notin> set (tokenValue t)
         \<and> tokenErr t = None
         \<and> rest (reader s') = zs"
    by auto
qed (rule ScanSeq_continuation)

theorem C6_line_continuation_witness:
  "(rest (reader (NewConfigScanner True [32, 9, 92, 10, 32, 120]))
      = 32 # [9] @ 92 # 10 # [32] @ [120]
    \<and> IsSpace 32 \<and> (32::nat) \<noteq> 10
    \<and> spec_whiteSpaceRun [9] \<and> spec_whiteSpaceRun [32] \<and> spec_endsWhiteSpace [120])
   \<and> (\<exists>t s'. Scan (NewConfigScanner True [32, 9, 92, 10, 32, 120]) = ((Some t, None), s')
         \<and> tokenType t = CtkWhiteSpace
         \<and> tokenValue t = [32, 9, 32]
         \<and> rest (reader s') = [120])"
  using C6_line_continuation
    [of "NewConfigScanner True [32, 9, 92, 10, 32, 120]" 32 "[9]" "[32]" "[120]" True]
  by (simp add: NewConfigScanner_def IsSpace_def spec_endsWhiteSpace_def) blast

section \<open>Quoted strings\<close>

lemma not_IsSpace_quote: "\<not> IsSpace 34"
  by (simp add: IsSpace_def)

lemma scanStringWord_loop_run:
  "rest (reader s) = cs \<Longrightarrow>
   (case spec_closingQuote escape cs of
      None \<Rightarrow>
        \<exists>s'. scanStringWord_loop escape buffer s = ((None, False, buffer @ cs), s')
             \<and> rest (reader s') = []
    | Some (interior, after) \<Rightarrow>
        \<exists>s'. scanStringWord_loop escape buffer s = ((None, True, buffer @ interior @ [34]), s')
             \<and> rest (reader s') = after)"
proof (induction cs arbitrary: s escape buffer)
  case Nil
  from read_Nil [OF Nil] obtain s1 where "read s = ((0, True, None), s1)" "rest (reader s1) = []"
    by blast
  then show ?case
    by (subst scanStringWord_loop.simps) simp
next
  case (Cons c cs)
  from read_Cons [OF Cons.prems] obtain s1 where
    s1: "read s = ((c, False, None), s1)" "rest (reader s1) = cs"
    by blast
  show ?case
  proof (cases "\<not> escape \<and> c = 34")
    case True
    with s1 show ?thesis
      by (subst scanStringWord_loop.simps) simp
  next
    case False
    have step: "scanStringWord_loop escape buffer s
                  = scanStringWord_loop (\<not> escape \<and> c = 92) (buffer @ [c]) s1"
      using s1 False by (subst scanStringWord_loop.simps) auto
    from Cons.IH [OF s1(2), of "\<not> escape \<and> c = 92" "buffer @ [c]"] False step
    show ?thesis
      by (auto split: option.splits)
  qed
qed

lemma processStringWord_loop_spec:
  "processStringWord_loop False buffer xs = buffer @ spec_unescape xs"
proof (induction xs arbitrary: buffer rule: spec_unescape.induct)
  case 1
  then show ?case by simp
next
  case (2 c)
  then show ?case by simp
next
  case (3 c d cs)
  then show ?case by (simp add: spec_escaped_def)
qed

lemma processStringWord_quoted:
  "processStringWord (34 # interior @ [34]) = (spec_unescape interior, None)"
  by (simp add: processStringWord_def Let_def nth_append processStringWord_loop_spec)

lemma Scan_string_loop:
  assumes "rest (reader s) = 34 # xs"
  shows "\<exists>s1 s3. read s = ((34, False, None), s1) \<and> rest (reader s3) = xs
           \<and> Scan s =
               (case scanStringWord_loop False [34] s3 of
                  ((lerr, closingQuoteFound, buffer), s4) \<Rightarrow>
                    if lerr \<noteq> None then ((None, lerr), s4)
                    else if closingQuoteFound then
                      (case processStringWord buffer of (word, perr) \<Rightarrow>
                         if perr \<noteq> None then ((None, perr), s4)
                         else ((Some ((newToken CtkWord word (pos s4))
                                        \<lparr>startPos := pos s1\<rparr>), None), s4))
                    else ((Some ((newToken CtkInvalid buffer (pos s4))
                                   \<lparr>tokenErr := Some UnterminatedString,
                                    startPos := pos s1\<rparr>), None), s4))"
proof -
  from read_Cons [OF assms(1)] obtain s1 where
    s1: "read s = ((34, False, None), s1)" "rest (reader s1) = xs" "lastRune (reader s1) = Some 34"
    by blast
  from unread_Some [OF s1(3)] s1(2) obtain s2 where
    s2: "unread s1 = (None, s2)" "rest (reader s2) = 34 # xs"
    by auto
  from read_Cons [OF s2(2)] obtain s3 where
    s3: "read s2 = ((34, False, None), s3)" "rest (reader s3) = xs"
    by blast
  show ?thesis
    by (rule exI [of _ s1], rule exI [of _ s3])
       (simp add: s1 s2 s3 Scan_def Scan_switch_def scanStringWord_def not_IsSpace_quote
          split: prod.splits)
qed

lemma Scan_unterminated_string:
  assumes "rest (reader s) = 34 # xs" "spec_closingQuote False xs = None"
  shows "\<exists>t s'. Scan s = ((Some t, None), s') \<and> tokenType t = CtkInvalid
           \<and> tokenValue t = 34 # xs \<and> tokenErr t = Some UnterminatedString
           \<and> rest (reader s') = []"
proof -
  from Scan_string_loop [OF assms(1)] obtain s1 s3 :: ConfigScanner where
    s3: "rest (reader s3) = xs"
    and scan: "Scan s =
               (case scanStringWord_loop False [34] s3 of
                  ((lerr, closingQuoteFound, buffer), s4) \<Rightarrow>
                    if lerr \<noteq> None then ((None, lerr), s4)
                    else if closingQuoteFound then
                      (case processStringWord buffer of (word, perr) \<Rightarrow>
                         if perr \<noteq> None then ((None, perr), s4)
                         else ((Some ((newToken CtkWord word (pos s4))
                                        \<lparr>startPos := pos s1\<rparr>), None), s4))
                    else ((Some ((newToken CtkInvalid buffer (pos s4))
                                   \<lparr>tokenErr := Some UnterminatedString,
                                    startPos := pos s1\<rparr>), None), s4))"
    by fastforce
  from scanStringWord_loop_run [OF s3, of False "[34]"] assms(2) obtain s4 where
    "scanStringWord_loop False [34] s3 = ((None, False, 34 # xs), s4)" "rest (reader s4) = []"
    by auto
  with scan show ?thesis
    by (simp add: newToken_def)
qed

lemma Scan_terminated_string:
  assumes "rest (reader s) = 34 # xs" "spec_closingQuote False xs = Some (interior, after)"
  shows "\<exists>t s'. Scan s = ((Some t, None), s') \<and> tokenType t = CtkWord
           \<and> tokenValue t = spec_unescape interior \<and> tokenErr t = None
           \<and> rest (reader s') = after"
proof -
  from Scan_string_loop [OF assms(1)] obtain s1 s3 :: ConfigScanner where
    s3: "rest (reader s3) = xs"
    and scan: "Scan s =
               (case scanStringWord_loop False [34] s3 of
                  ((lerr, closingQuoteFound, buffer), s4) \<Rightarrow>
                    if lerr \<noteq> None then ((None, lerr), s4)
                    else if closingQuoteFound then
                      (case processStringWord buffer of (word, perr) \<Rightarrow>
                         if perr \<noteq> None then ((None, perr), s4)
                         else ((Some ((newToken CtkWord word (pos s4))
                                        \<lparr>startPos := pos s1\<rparr>), None), s4))
                    else ((Some ((newToken CtkInvalid buffer (pos s4))
                                   \<lparr>tokenErr := Some UnterminatedString,
                                    startPos := pos s1\<rparr>), None), s4))"
    by fastforce
  from scanStringWord_loop_run [OF s3, of False "[34]"] assms(2) obtain s4 where
    "scanStringWord_loop False [34] s3 = ((None, True, 34 # interior @ [34]), s4)"
    "rest (reader s4) = after"
    by auto
  with scan show ?thesis
    by (simp add: newToken_def processStringWord_quoted)
qed

lemma spec_closingQuote_input:
  "spec_closingQuote escaped xs = Some (interior, after) \<Longrightarrow> xs = interior @ 34 # after"
  by (induction xs arbitrary: escaped interior after) (auto split: if_splits)


text \<open>The errors that the primitives can return.\<close>

lemma read_err: "read s = ((c, eof, err), s') \<Longrightarrow> err = None"
  by (auto simp: read_def ReadRune_def Let_def split: list.splits if_splits)

lemma unread_err: "unread s = (e, s') \<Longrightarrow> e = None \<or> e = Some ErrInvalidUnreadRune"
  by (auto simp: unread_def UnreadRune_def Let_def split: option.splits if_splits)

lemma peek_err: "peek s = ((bs, e), s') \<Longrightarrow> e = None \<or> e = Some EOF"
  by (auto simp: peek_def Peek_def Let_def split: list.splits if_splits)

lemma scanWord_result:
  "\<exists>t s'. scanWord s = ((Some t, None), s') \<and> tokenType t = CtkWord"
  using scanWord_loop_run [of s "rest (reader s)" "[]"]
  by (auto simp: scanWord_def newToken_def)

lemma scanToEndOfLine_result:
  "\<exists>t s'. scanToEndOfLine k s = ((Some t, None), s') \<and> tokenType t = k"
  using scanToEndOfLine_loop_run [of s "rest (reader s)" "[]"]
  by (auto simp: scanToEndOfLine_def newToken_def)

lemma scanWhiteSpace_loop_err:
  "rest (reader s) = cs \<Longrightarrow>
   fst (fst (scanWhiteSpace_loop escape buffer s)) \<in> {None, Some EOF, Some ErrInvalidUnreadRune}"
proof (induction cs arbitrary: s escape buffer)
  case Nil
  from read_Nil [OF Nil] obtain s1 where "read s = ((0, True, None), s1)"
    by blast
  then show ?case
    by (subst scanWhiteSpace_loop.simps) simp
next
  case (Cons c cs)
  from read_Cons [OF Cons.prems] obtain s1 where
    s1: "read s = ((c, False, None), s1)" "rest (reader s1) = cs"
    by blast
  obtain uerr1 s3 where u1: "unread s1 = (uerr1, s3)"
    by (metis surj_pair)
  note ue1 = unread_err [OF u1]
  show ?case
  proof (cases "c = 92")
    case True
    obtain nb perr s2 where p: "peek s1 = ((nb, perr), s2)"
      by (metis surj_pair)
    have s2: "rest (reader s2) = cs"
      using p s1(2) by (auto simp: peek_def Peek_def Let_def split: list.splits)
    obtain uerr2 s4 where u2: "unread s2 = (uerr2, s4)"
      by (metis surj_pair)
    note ue2 = unread_err [OF u2]
    show ?thesis
    proof (cases "perr \<noteq> None")
      case True
      with s1 p \<open>c = 92\<close> peek_err [OF p] show ?thesis
        by (subst scanWhiteSpace_loop.simps) auto
    next
      case False
      show ?thesis
      proof (cases "length nb = 1 \<and> nb ! 0 = 10")
        case True
        then have "scanWhiteSpace_loop escape buffer s = scanWhiteSpace_loop True buffer s2"
          using s1 p \<open>c = 92\<close> False by (subst scanWhiteSpace_loop.simps) simp
        with Cons.IH [OF s2] show ?thesis by simp
      next
        case nomatch: False
        with s1 p u2 ue2 \<open>c = 92\<close> False show ?thesis
          by (subst scanWhiteSpace_loop.simps) auto
      qed
    qed
  next
    case False
    note nbs = this
    show ?thesis
    proof (cases "c = 10")
      case True
      show ?thesis
      proof (cases escape)
        case True
        then have "scanWhiteSpace_loop escape buffer s = scanWhiteSpace_loop False buffer s1"
          using s1 \<open>c = 10\<close> by (subst scanWhiteSpace_loop.simps) simp
        with Cons.IH [OF s1(2)] show ?thesis by simp
      next
        case False
        with s1 u1 ue1 \<open>c = 10\<close> show ?thesis
          by (subst scanWhiteSpace_loop.simps) auto
      qed
    next
      case False
      show ?thesis
      proof (cases "IsSpace c")
        case True
        then have "scanWhiteSpace_loop escape buffer s
                     = scanWhiteSpace_loop False (buffer @ [c]) s1"
          using s1 nbs False by (subst scanWhiteSpace_loop.simps) simp
        with Cons.IH [OF s1(2)] show ?thesis by simp
      next
        case nsp: False
        with s1 u1 ue1 nbs False show ?thesis
          by (subst scanWhiteSpace_loop.simps) auto
      qed
    qed
  qed
qed

lemma scanWhiteSpace_result:
  "scanWhiteSpace s = ((tok, e), s') \<Longrightarrow>
   (e = None \<or> e = Some EOF \<or> e = Some ErrInvalidUnreadRune)
   \<and> (\<forall>t. tok = Some t \<longrightarrow> tokenType t = CtkWhiteSpace)"
  using scanWhiteSpace_loop_err [of s "rest (reader s)" False "[]"]
  by (auto simp: scanWhiteSpace_def newToken_def split: prod.splits if_splits)

lemma scanStringWord_loop_closing:
  assumes "scanStringWord_loop escape buffer s = ((e, True, buffer'), s')"
  shows "e = None \<and> (\<exists>mid. buffer' = buffer @ mid @ [34])"
  using scanStringWord_loop_run [of s "rest (reader s)" escape buffer] assms
  by (auto split: option.splits)

lemma scanWord_dest:
  "scanWord s = ((tok, e), s') \<Longrightarrow> e = None \<and> (\<exists>t. tok = Some t \<and> tokenType t = CtkWord)"
  using scanWord_result [of s] by auto

lemma scanToEndOfLine_dest:
  "scanToEndOfLine k s = ((tok, e), s') \<Longrightarrow> e = None \<and> (\<exists>t. tok = Some t \<and> tokenType t = k)"
  using scanToEndOfLine_result [of k s] by auto

lemma Scan_switch_other:
  assumes "Scan_switch c False None s1 = ((tok, e), s2)" "c \<noteq> 34"
  shows "(e = None \<or> e = Some EOF \<or> e = Some ErrInvalidUnreadRune)
         \<and> (\<forall>t. tok = Some t \<longrightarrow> tokenType t \<noteq> CtkEOF)"
proof -
  obtain uerr s3 where u: "unread s1 = (uerr, s3)"
    by (metis surj_pair)
  note ue = unread_err [OF u]
  consider (nl) "c = 10" | (sp) "c \<noteq> 10" "IsSpace c" | (hash) "c \<noteq> 10" "\<not> IsSpace c" "c = 35"
    | (bang) "c \<noteq> 10" "\<not> IsSpace c" "c = 33 \<or> c = 64"
    | (dash) "c \<noteq> 10" "\<not> IsSpace c" "c = 45"
    | (other) "c \<noteq> 10" "\<not> IsSpace c" "c \<noteq> 35" "c \<noteq> 33" "c \<noteq> 64" "c \<noteq> 45"
    by fastforce
  then show ?thesis
  proof cases
    case nl
    with assms show ?thesis
      by (auto simp: Scan_switch_def newToken_def)
  next
    case sp
    with assms u ue show ?thesis
      by (auto simp: Scan_switch_def split: if_splits dest!: scanWhiteSpace_result)
  next
    case hash
    with assms u ue show ?thesis
      by (auto simp: Scan_switch_def scanComment_def split: if_splits
          dest!: scanToEndOfLine_dest)
  next
    case bang
    with assms u ue show ?thesis
      by (auto simp: Scan_switch_def scanShellCommand_def split: if_splits
          dest!: scanToEndOfLine_dest)
  next
    case dash
    obtain nb perr s4 where p: "peek s1 = ((nb, perr), s4)"
      by (metis surj_pair)
    note pe = peek_err [OF p]
    obtain uerr2 s5 where u2: "unread s4 = (uerr2, s5)"
      by (metis surj_pair)
    note ue2 = unread_err [OF u2]
    obtain wtok werr s6 where w: "scanWord s4 = ((wtok, werr), s6)"
      by (metis surj_pair)
    note wd = scanWord_dest [OF w]
    from dash assms p pe u2 ue2 w wd show ?thesis
      by (auto simp: Scan_switch_def not_IsSpace_dash split: if_splits dest!: scanWord_dest)
  next
    case other
    with assms u ue show ?thesis
      by (auto simp: Scan_switch_def split: if_splits dest!: scanWord_dest)
  qed
qed

lemma Scan_result:
  assumes "Scan s = ((tok, e), s')"
  shows "(e = None \<or> e = Some EOF \<or> e = Some ErrInvalidUnreadRune)
         \<and> (\<forall>t. tok = Some t \<and> tokenType t = CtkEOF \<longrightarrow> rest (reader s) = [])"
proof (cases "rest (reader s)")
  case Nil
  from read_Nil [OF Nil] obtain s1 where "read s = ((0, True, None), s1)"
    by blast
  with assms Nil show ?thesis
    by (auto simp: Scan_def Scan_switch_def)
next
  case (Cons c cs)
  show ?thesis
  proof (cases "c = 34")
    case True
    show ?thesis
    proof (cases "spec_closingQuote False cs")
      case None
      from Scan_unterminated_string [of s cs] Cons True None assms show ?thesis
        by auto
    next
      case (Some a)
      then obtain interior after where "spec_closingQuote False cs = Some (interior, after)"
        by (cases a) auto
      from Scan_terminated_string [OF _ this, of s] Cons True assms show ?thesis
        by auto
    qed
  next
    case False
    from read_Cons [OF Cons] obtain s1 where r: "read s = ((c, False, None), s1)"
      by blast
    obtain tok0 e0 s2 where sw: "Scan_switch c False None s1 = ((tok0, e0), s2)"
      by (metis surj_pair)
    from Scan_switch_other [OF sw False] assms r sw Cons show ?thesis
      by (auto simp: Scan_def split: option.splits)
  qed
qed

lemma read_at_end:
  assumes "rest (reader s) = []"
  shows "\<exists>s1. read s = ((0, True, None), s1) \<and> read s1 = ((0, True, None), s1)
           \<and> rest (reader s1) = []"
  using assms by (simp add: read_def ReadRune_def Let_def)

lemma Scan_at_end:
  assumes "rest (reader s) = []"
  shows "\<exists>t s1. Scan s = ((Some t, None), s1) \<and> Scan s1 = ((Some t, None), s1)
           \<and> tokenType t = CtkEOF"
proof -
  from read_at_end [OF assms] obtain s1 where
    "read s = ((0, True, None), s1)" "read s1 = ((0, True, None), s1)"
    by blast
  then show ?thesis
    by (simp add: Scan_def Scan_switch_def newToken_def)
qed

lemma ScanSeq_fixed:
  "Scan s = (r, s) \<Longrightarrow> ScanSeq n s = replicate n r"
  by (induction n) simp_all

lemma ScanSeq_unterminated:
  "ScanSeq 2 (NewConfigScanner strict (34 # runes ''abc'')) =
     [(Some \<lparr>tokenType = CtkInvalid, tokenValue = 34 # runes ''abc'',
              startPos = \<lparr>line = 1, col = 1\<rparr>, endPos = \<lparr>line = 1, col = 4\<rparr>,
              tokenErr = Some UnterminatedString\<rparr>, None),
      (Some \<lparr>tokenType = CtkEOF, tokenValue = [],
              startPos = \<lparr>line = 1, col = 4\<rparr>, endPos = \<lparr>line = 1, col = 4\<rparr>,
              tokenErr = None\<rparr>, None)]"
  by (rule strict_cases [of _ strict]; code_simp)

lemma ScanSeq_escaped_newline:
  "ScanSeq 2 (NewConfigScanner strict ([34] @ runes ''a'' @ [92] @ runes ''nb'' @ [34])) =
     [(Some \<lparr>tokenType = CtkWord, tokenValue = runes ''a'' @ [10] @ runes ''b'',
              startPos = \<lparr>line = 1, col = 1\<rparr>, endPos = \<lparr>line = 1, col = 6\<rparr>,
              tokenErr = None\<rparr>, None),
      (Some \<lparr>tokenType = CtkEOF, tokenValue = [],
              startPos = \<lparr>line = 1, col = 6\<rparr>, endPos = \<lparr>line = 1, col = 6\<rparr>,
              tokenErr = None\<rparr>, None)]"
  by (rule strict_cases [of _ strict]; code_simp)

text \<open>
  C4: when the input is an opening quote followed by text in which the stream ends
  before an unescaped closing quote, \<^verbatim>\<open>Scan\<close> returns, with no function-level
  error, an Invalid token whose value is the raw text read, opening quote included and
  nothing decoded, and whose error is the unterminated-string error. In particular
  \<open>"abc\<close> yields one Invalid token with value \<open>"abc\<close>, and then EOF.
\<close>

theorem C4_unterminated_string:
  "(rest (reader s) = 34 # xs \<and> spec_closingQuote False xs = None \<longrightarrow>
      (\<exists>t s'. Scan s = ((Some t, None), s') \<and> tokenType t = CtkInvalid
         \<and> tokenValue t = 34 # xs \<and> tokenErr t = Some UnterminatedString
         \<and> rest (reader s') = []))
   \<and> ScanSeq 2 (NewConfigScanner strict (34 # runes ''abc'')) =
       [(Some \<lparr>tokenType = CtkInvalid, tokenValue = 34 # runes ''abc'',
                startPos = \<lparr>line = 1, col = 1\<rparr>, endPos = \<lparr>line = 1, col = 4\<rparr>,
                tokenErr = Some UnterminatedString\<rparr>, None),
        (Some \<lparr>tokenType = CtkEOF, tokenValue = [],
                startPos = \<lparr>line = 1, col = 4\<rparr>, endPos = \<lparr>line = 1, col = 4\<rparr>,
                tokenErr = None\<rparr>, None)]"
  using Scan_unterminated_string [of s xs] ScanSeq_unterminated [of strict] by blast

theorem C4_unterminated_string_witness:
  "(rest (reader (NewConfigScanner True [34, 97, 92, 110, 92, 34])) = 34 # [97, 92, 110, 92, 34]
      \<and> spec_closingQuote False [97, 92, 110, 92, 34] = None)
   \<and> (\<exists>t s'. Scan (NewConfigScanner True [34, 97, 92, 110, 92, 34]) = ((Some t, None), s')
         \<and> tokenType t = CtkInvalid
         \<and> tokenValue t = [34, 97, 92, 110, 92, 34]
         \<and> tokenErr t = Some UnterminatedString
         \<and> rest (reader s') = [])"
  using C4_unterminated_string
    [of "NewConfigScanner True [34, 97, 92, 110, 92, 34]" "[97, 92, 110, 92, 34]" True]
  by (simp add: NewConfigScanner_def)

text \<open>
  C5: when the input is an opening quote followed by text with an unescaped closing
  quote, \<^verbatim>\<open>Scan\<close> returns a Word token whose value is the interior between the
  two quotes, decoded from left to right: a backslash and the character after it give
  one character, newline for \<open>n\<close>, tab for \<open>t\<close>, the character itself otherwise. The
  scanner is left after the closing quote. In particular a quote, \<open>a\<close>, backslash,
  \<open>n\<close>, \<open>b\<close> and a quote yield one Word token with value \<open>a\<close>, newline, \<open>b\<close>.
\<close>

theorem C5_quoted_string_decoded:
  "(rest (reader s) = 34 # xs \<and> spec_closingQuote False xs = Some (interior, after) \<longrightarrow>
      xs = interior @ 34 # after
      \<and> (\<exists>t s'. Scan s = ((Some t, None), s') \<and> tokenType t = CtkWord
            \<and> tokenValue t = spec_unescape interior \<and> tokenErr t = None
            \<and> rest (reader s') = after))
   \<and> ScanSeq 2 (NewConfigScanner strict ([34] @ runes ''a'' @ [92] @ runes ''nb'' @ [34])) =
       [(Some \<lparr>tokenType = CtkWord, tokenValue = runes ''a'' @ [10] @ runes ''b'',
                startPos = \<lparr>line = 1, col = 1\<rparr>, endPos = \<lparr>line = 1, col = 6\<rparr>,
                tokenErr = None\<rparr>, None),
        (Some \<lparr>tokenType = CtkEOF, tokenValue = [],
                startPos = \<lparr>line = 1, col = 6\<rparr>, endPos = \<lparr>line = 1, col = 6\<rparr>,
                tokenErr = None\<rparr>, None)]"
  using Scan_terminated_string [of s xs interior after]
    spec_closingQuote_input [of False xs interior after]
    ScanSeq_escaped_newline [of strict]
  by blast

theorem C5_quoted_string_decoded_witness:
  "(rest (reader (NewConfigScanner True [34, 97, 92, 34, 92, 116, 92, 92, 120, 34, 121]))
      = 34 # [97, 92, 34, 92, 116, 92, 92, 120, 34, 121]
    \<and> spec_closingQuote False [97, 92, 34, 92, 116, 92, 92, 120, 34, 121]
        = Some ([97, 92, 34, 92, 116, 92, 92, 120], [121]))
   \<and> (\<exists>t s'. Scan (NewConfigScanner True [34, 97, 92, 34, 92, 116, 92, 92, 120, 34, 121])
                 = ((Some t, None), s')
         \<and> tokenType t = CtkWord
         \<and> tokenValue t = [97, 34, 9, 92, 120]
         \<and> tokenErr t = None
         \<and> rest (reader s') = [121])"
  using C5_quoted_string_decoded
    [of "NewConfigScanner True [34, 97, 92, 34, 92, 116, 92, 92, 120, 34, 121]"
        "[97, 92, 34, 92, 116, 92, 92, 120, 34, 121]" "[97, 92, 34, 92, 116, 92, 92, 120]" "[121]"
        True]
  by (simp add: NewConfigScanner_def spec_escaped_def)

text \<open>
  C10: when the string scanner is entered at a quote and its loop finds an unescaped
  closing quote, the raw buffer has at least two characters and starts and ends with a
  quote, so \<^verbatim>\<open>processStringWord\<close> does not fail on it; and \<^verbatim>\<open>Scan\<close>, in any
  scanner state, never returns the invalid-string-word error.
\<close>

theorem C10_invalid_string_word_unreachable:
  "(rest (reader s) = 34 # xs \<and> read s = ((c, eof, err), s1)
      \<and> scanStringWord_loop False [c] s1 = ((lerr, True, buffer), s2) \<longrightarrow>
      2 \<le> length buffer \<and> buffer ! 0 = 34 \<and> buffer ! (length buffer - 1) = 34
      \<and> snd (processStringWord buffer) = None)
   \<and> snd (fst (Scan s')) \<noteq> Some (InvalidStringWord x)"
proof (intro conjI impI)
  assume h: "rest (reader s) = 34 # xs \<and> read s = ((c, eof, err), s1)
      \<and> scanStringWord_loop False [c] s1 = ((lerr, True, buffer), s2)"
  with read_Cons [of s 34 xs] have c: "c = 34"
    by auto
  from h scanStringWord_loop_closing [of False "[c]" s1 lerr buffer s2]
  obtain mid where b: "buffer = 34 # mid @ [34]"
    using c by auto
  show "2 \<le> length buffer" "buffer ! 0 = 34" "buffer ! (length buffer - 1) = 34"
    by (simp_all add: b nth_append)
  show "snd (processStringWord buffer) = None"
    by (simp add: b processStringWord_quoted)
next
  obtain tok e s2 where "Scan s' = ((tok, e), s2)"
    by (metis surj_pair)
  with Scan_result [OF this] show "snd (fst (Scan s')) \<noteq> Some (InvalidStringWord x)"
    by auto
qed

theorem C10_invalid_string_word_unreachable_witness:
  "(rest (reader (NewConfigScanner True [34, 97, 34])) = 34 # [97, 34]
      \<and> read (NewConfigScanner True [34, 97, 34]) =
           ((34, False, None),
            \<lparr>reader = \<lparr>rest = [97, 34], lastRune = Some 34, peekResets = True\<rparr>,
             pos = \<lparr>line = 1, col = 1\<rparr>, lastCharLineEnd = False, lastLineEndCol = 0\<rparr>)
      \<and> scanStringWord_loop False [34]
            \<lparr>reader = \<lparr>rest = [97, 34], lastRune = Some 34, peekResets = True\<rparr>,
             pos = \<lparr>line = 1, col = 1\<rparr>, lastCharLineEnd = False, lastLineEndCol = 0\<rparr>
          = ((None, True, [34, 97, 34]),
             \<lparr>reader = \<lparr>rest = [], lastRune = Some 34, peekResets = True\<rparr>,
              pos = \<lparr>line = 1, col = 3\<rparr>, lastCharLineEnd = False, lastLineEndCol = 0\<rparr>))
   \<and> snd (processStringWord [34, 97, 34]) = None
   \<and> snd (fst (Scan (NewConfigScanner True [34, 97, 34]))) \<noteq> Some (InvalidStringWord [34, 97, 34])"
proof -
  have h1: "rest (reader (NewConfigScanner True [34, 97, 34])) = 34 # [97, 34]"
    by (simp add: NewConfigScanner_def)
  have h2: "read (NewConfigScanner True [34, 97, 34]) =
           ((34, False, None),
            \<lparr>reader = \<lparr>rest = [97, 34], lastRune = Some 34, peekResets = True\<rparr>,
             pos = \<lparr>line = 1, col = 1\<rparr>, lastCharLineEnd = False, lastLineEndCol = 0\<rparr>)"
    by code_simp
  have h3: "scanStringWord_loop False [34]
            \<lparr>reader = \<lparr>rest = [97, 34], lastRune = Some 34, peekResets = True\<rparr>,
             pos = \<lparr>line = 1, col = 1\<rparr>, lastCharLineEnd = False, lastLineEndCol = 0\<rparr>
          = ((None, True, [34, 97, 34]),
             \<lparr>reader = \<lparr>rest = [], lastRune = Some 34, peekResets = True\<rparr>,
              pos = \<lparr>line = 1, col = 3\<rparr>, lastCharLineEnd = False, lastLineEndCol = 0\<rparr>)"
    by code_simp
  from C10_invalid_string_word_unreachable
    [of "NewConfigScanner True [34, 97, 34]" "[97, 34]" 34 False None
        "\<lparr>reader = \<lparr>rest = [97, 34], lastRune = Some 34, peekResets = True\<rparr>,
         pos = \<lparr>line = 1, col = 1\<rparr>, lastCharLineEnd = False, lastLineEndCol = 0\<rparr>"
        None "[34, 97, 34]"
        "\<lparr>reader = \<lparr>rest = [], lastRune = Some 34, peekResets = True\<rparr>,
         pos = \<lparr>line = 1, col = 3\<rparr>, lastCharLineEnd = False, lastLineEndCol = 0\<rparr>"
        "NewConfigScanner True [34, 97, 34]" "[34, 97, 34]"]
    h1 h2 h3
  show ?thesis by blast
qed

text \<open>
  C7: once \<^verbatim>\<open>Scan\<close> has returned an EOF token, it did so without error, and every
  later call on the same scanner returns that same EOF token with no error, however many
  calls are made.
\<close>

theorem C7_end_of_stream_repeats:
  "Scan s = ((Some t, e), s') \<and> tokenType t = CtkEOF \<longrightarrow>
     e = None \<and> Scan s' = ((Some t, None), s')
     \<and> (\<forall>n. ScanSeq n s' = replicate n (Some t, None))"
proof
  assume h: "Scan s = ((Some t, e), s') \<and> tokenType t = CtkEOF"
  with Scan_result [of s "Some t" e s'] have "rest (reader s) = []"
    by simp
  from Scan_at_end [OF this] h have "e = None" and again: "Scan s' = ((Some t, None), s')"
    by auto
  with ScanSeq_fixed [OF again]
  show "e = None \<and> Scan s' = ((Some t, None), s')
     \<and> (\<forall>n. ScanSeq n s' = replicate n (Some t, None))"
    by simp
qed

theorem C7_end_of_stream_repeats_witness:
  "(Scan \<lparr>reader = \<lparr>rest = [], lastRune = None, peekResets = True\<rparr>,
           pos = \<lparr>line = 3, col = 7\<rparr>, lastCharLineEnd = True, lastLineEndCol = 4\<rparr>
      = ((Some \<lparr>tokenType = CtkEOF, tokenValue = [], startPos = \<lparr>line = 3, col = 7\<rparr>,
                 endPos = \<lparr>line = 3, col = 7\<rparr>, tokenErr = None\<rparr>, None),
         \<lparr>reader = \<lparr>rest = [], lastRune = None, peekResets = True\<rparr>,
          pos = \<lparr>line = 3, col = 7\<rparr>, lastCharLineEnd = True, lastLineEndCol = 4\<rparr>)
    \<and> tokenType \<lparr>tokenType = CtkEOF, tokenValue = [], startPos = \<lparr>line = 3, col = 7\<rparr>,
                 endPos = \<lparr>line = 3, col = 7\<rparr>, tokenErr = None\<rparr> = CtkEOF)
   \<and> ScanSeq 5 \<lparr>reader = \<lparr>rest = [], lastRune = None, peekResets = True\<rparr>,
          pos = \<lparr>line = 3, col = 7\<rparr>, lastCharLineEnd = True, lastLineEndCol = 4\<rparr>
       = replicate 5
           (Some \<lparr>tokenType = CtkEOF, tokenValue = [], startPos = \<lparr>line = 3, col = 7\<rparr>,
                 endPos = \<lparr>line = 3, col = 7\<rparr>, tokenErr = None\<rparr>, None)"
proof -
  have h: "Scan \<lparr>reader = \<lparr>rest = [], lastRune = None, peekResets = True\<rparr>,
           pos = \<lparr>line = 3, col = 7\<rparr>, lastCharLineEnd = True, lastLineEndCol = 4\<rparr>
      = ((Some \<lparr>tokenType = CtkEOF, tokenValue = [], startPos = \<lparr>line = 3, col = 7\<rparr>,
                 endPos = \<lparr>line = 3, col = 7\<rparr>, tokenErr = None\<rparr>, None),
         \<lparr>reader = \<lparr>rest = [], lastRune = None, peekResets = True\<rparr>,
          pos = \<lparr>line = 3, col = 7\<rparr>, lastCharLineEnd = True, lastLineEndCol = 4\<rparr>)"
    by code_simp
  from C7_end_of_stream_repeats
    [of "\<lparr>reader = \<lparr>rest = [], lastRune = None, peekResets = True\<rparr>,
           pos = \<lparr>line = 3, col = 7\<rparr>, lastCharLineEnd = True, lastLineEndCol = 4\<rparr>"
        "\<lparr>tokenType = CtkEOF, tokenValue = [], startPos = \<lparr>line = 3, col = 7\<rparr>,
                 endPos = \<lparr>line = 3, col = 7\<rparr>, tokenErr = None\<rparr>"
        None
        "\<lparr>reader = \<lparr>rest = [], lastRune = None, peekResets = True\<rparr>,
          pos = \<lparr>line = 3, col = 7\<rparr>, lastCharLineEnd = True, lastLineEndCol = 4\<rparr>"]
    h
  show ?thesis by simp
qed

section \<open>Positions\<close>

lemma word64_succ:
  fixes x :: "64 word"
  assumes "unat x < 18446744073709551615"
  shows "unat (x + 1) = unat x + 1" "x + 1 \<noteq> 0"
proof -
  show "unat (x + 1) = unat x + 1"
    using assms by (simp add: unat_word_ariths)
  then show "x + 1 \<noteq> 0"
    by (metis add_is_0 unat_0 zero_neq_one)
qed

lemma tracked_read:
  assumes "tracked input s" "length input < 2 ^ 64" "input \<noteq> []" "read s = (r, s1)"
  shows "tracked input s1"
proof (cases "rest (reader s)")
  case Nil
  with assms show ?thesis
    by (auto simp: tracked_def read_def ReadRune_def Let_def)
next
  case (Cons c cs)
  let ?k = "length input - length (rest (reader s))"
  from assms(1) Cons have le: "Suc (length cs) \<le> length input"
    by (simp add: tracked_def Let_def)
  with assms(2) have k: "?k < 18446744073709551615" "?k = length input - Suc (length cs)"
    using Cons by simp_all
  from assms(1) have b: "unat (line (pos s)) \<le> max 1 ?k" "unat (col (pos s)) \<le> ?k"
    "line (pos s) \<noteq> 0"
    by (simp_all add: tracked_def Let_def)
  from b k have "unat (line (pos s)) < 18446744073709551615" "unat (col (pos s)) < 18446744073709551615"
    by simp_all
  note sl = word64_succ [OF this(1)] and sc = word64_succ [OF this(2)]
  show ?thesis
    using assms(1,4) Cons le sl sc
    apply (simp add: tracked_def read_def ReadRune_def Let_def split: if_splits)
    apply (auto simp: Suc_diff_le)
    done
qed


lemma tracked_cong:
  "rest (reader s') = rest (reader s) \<Longrightarrow> pos s' = pos s \<Longrightarrow>
   lastCharLineEnd s' = lastCharLineEnd s \<Longrightarrow> tracked input s' = tracked input s"
  by (simp add: tracked_def)

lemma read_success:
  assumes "read s = ((c, False, e), s1)"
  shows "\<exists>cs. rest (reader s) = c # cs \<and> e = None"
  using assms by (auto simp: read_def ReadRune_def Let_def split: list.splits if_splits)

lemma unread_read:
  assumes "tracked input s" "length input < 2 ^ 64"
    and "read s = ((c, False, None), s1)" "unread s1 = (None, s2)"
  shows "pos s2 = pos s \<and> lastCharLineEnd s2 = lastCharLineEnd s
         \<and> rest (reader s2) = rest (reader s) \<and> read s2 = ((c, False, None), s1)"
proof -
  from read_success [OF assms(3)] obtain cs where cs: "rest (reader s) = c # cs"
    by blast
  let ?k = "length input - length (rest (reader s))"
  from assms(1) cs have le: "Suc (length cs) \<le> length input"
    by (simp add: tracked_def Let_def)
  with assms(2) have k: "?k < 18446744073709551615"
    using cs by simp
  from assms(1) have b: "unat (line (pos s)) \<le> max 1 ?k" "line (pos s) \<noteq> 0"
    and z: "col (pos s) = 0 \<longrightarrow> line (pos s) = 1"
    by (simp_all add: tracked_def Let_def)
  from b k have "unat (line (pos s)) < 18446744073709551615"
    by simp
  note sl = word64_succ [OF this]
  from b(2) have "1 \<le> unat (line (pos s))"
    by (simp add: unat_gt_0 Suc_le_eq)
  with sl(1) have "1 < unat (line (pos s) + 1)"
    by simp
  then have lt: "1 < line (pos s) + 1"
    by (simp add: word_less_nat_alt)
  show ?thesis
  proof (cases "lastCharLineEnd s")
    case True
    with assms(3,4) cs lt show ?thesis
      by (cases s) (auto simp: read_def unread_def ReadRune_def UnreadRune_def Let_def
          split: if_splits)
  next
    case False
    with assms(3,4) cs z show ?thesis
      by (cases s) (auto simp: read_def unread_def ReadRune_def UnreadRune_def Let_def
          split: if_splits)
  qed
qed


lemma read_lastRune:
  assumes "read s = (r, s1)" "lastRune (reader s1) \<noteq> None"
  shows "\<exists>c. r = (c, False, None)"
  using assms by (auto simp: read_def ReadRune_def Let_def split: list.splits if_splits)

lemma unread_None:
  assumes "lastRune (reader s) = None"
  shows "unread s = (Some ErrInvalidUnreadRune, s)"
  using assms by (simp add: unread_def UnreadRune_def)

lemma unread_lastRune:
  assumes "unread s = (e, s')" "lastRune (reader s) \<noteq> None"
  shows "e = None \<and> lastRune (reader s') = None"
  using assms by (auto simp: unread_def UnreadRune_def Let_def split: if_splits)

lemma peek_state:
  assumes "peek s = (r, s')"
  shows "rest (reader s') = rest (reader s) \<and> pos s' = pos s
         \<and> lastCharLineEnd s' = lastCharLineEnd s
         \<and> (lastRune (reader s') \<noteq> None \<longrightarrow> s' = s)"
  using assms by (auto simp: peek_def Peek_def Let_def split: list.splits if_splits)

lemma reachable_tracked:
  assumes "reachable input s" "input \<noteq> []" "length input < 2 ^ 64"
  shows "tracked input s
         \<and> (lastRune (reader s) \<noteq> None \<longrightarrow>
              (\<exists>s0 c. tracked input s0 \<and> read s0 = ((c, False, None), s)))"
  using assms
proof (induction rule: reachable.induct)
  case (reach_new strict)
  then show ?case
    by (simp add: tracked_def NewConfigScanner_def)
next
  case (reach_read s r s')
  then have t: "tracked input s" by simp
  from tracked_read [OF t reach_read.prems(2,1) reach_read.hyps(2)] have "tracked input s'" .
  moreover have "\<exists>s0 c. tracked input s0 \<and> read s0 = ((c, False, None), s')"
    if "lastRune (reader s') \<noteq> None"
    using read_lastRune [OF reach_read.hyps(2) that] t reach_read.hyps(2) by auto
  ultimately show ?case by blast
next
  case (reach_unread s e s')
  show ?case
  proof (cases "lastRune (reader s)")
    case None
    from unread_None [OF None] reach_unread show ?thesis by simp
  next
    case (Some c)
    with reach_unread obtain s0 c0 where
      s0: "tracked input s0" "read s0 = ((c0, False, None), s)"
      by auto
    from unread_lastRune [OF reach_unread.hyps(2)] Some
    have e: "e = None" "lastRune (reader s') = None"
      by simp_all
    from unread_read [OF s0(1) reach_unread.prems(2) s0(2)] reach_unread.hyps(2) e
    have "pos s' = pos s0" "lastCharLineEnd s' = lastCharLineEnd s0"
      "rest (reader s') = rest (reader s0)"
      by simp_all
    from tracked_cong [OF this(3,1,2)] s0(1) e(2) show ?thesis
      by simp
  qed
next
  case (reach_peek s p s')
  from peek_state [OF reach_peek.hyps(2)] reach_peek.IH reach_peek.prems
    tracked_cong [of s' s input]
  show ?case by auto
qed

lemma reachable_empty:
  assumes "reachable [] s"
  shows "rest (reader s) = [] \<and> lastRune (reader s) = None"
  using assms
proof (induction rule: reachable.induct)
  case (reach_new strict)
  then show ?case by (simp add: NewConfigScanner_def)
next
  case (reach_read s r s')
  then show ?case
    by (auto simp: read_def ReadRune_def Let_def split: if_splits)
next
  case (reach_unread s e s')
  then show ?case
    by (auto simp: unread_def UnreadRune_def Let_def split: if_splits)
next
  case (reach_peek s p s')
  then show ?case
    by (auto simp: peek_def Peek_def Let_def split: if_splits)
qed


lemma reachable_read: "reachable input s \<Longrightarrow> reachable input (snd (read s))"
  by (rule reach_read [of input s "fst (read s)"]) simp_all

lemma reachable_unread: "reachable input s \<Longrightarrow> reachable input (snd (unread s))"
  by (rule reach_unread [of input s "fst (unread s)"]) simp_all

lemma reachable_peek: "reachable input s \<Longrightarrow> reachable input (snd (peek s))"
  by (rule reach_peek [of input s "fst (peek s)"]) simp_all

lemma scanWord_loop_reachable:
  "rest (reader s) = cs \<Longrightarrow> reachable input s \<Longrightarrow>
   reachable input (snd (scanWord_loop buffer s))"
proof (induction cs arbitrary: s buffer)
  case Nil
  from read_Nil [OF Nil(1)] obtain s1 where r: "read s = ((0, True, None), s1)"
    by blast
  with reachable_read [OF Nil(2)] show ?case
    by (subst scanWord_loop.simps) simp
next
  case (Cons c cs)
  from read_Cons [OF Cons.prems(1)] obtain s1 where
    s1: "read s = ((c, False, None), s1)" "rest (reader s1) = cs"
    by blast
  with reachable_read [OF Cons.prems(2)] have r1: "reachable input s1"
    by simp
  show ?case
  proof (cases "IsSpace c")
    case True
    with s1 reachable_unread [OF r1] show ?thesis
      by (subst scanWord_loop.simps) (auto split: prod.splits)
  next
    case False
    with s1 Cons.IH [OF s1(2) r1, of "buffer @ [c]"] show ?thesis
      by (subst scanWord_loop.simps) simp
  qed
qed

lemma scanToEndOfLine_loop_reachable:
  "rest (reader s) = cs \<Longrightarrow> reachable input s \<Longrightarrow>
   reachable input (snd (scanToEndOfLine_loop buffer s))"
proof (induction cs arbitrary: s buffer)
  case Nil
  from read_Nil [OF Nil(1)] obtain s1 where r: "read s = ((0, True, None), s1)"
    by blast
  with reachable_read [OF Nil(2)] show ?case
    by (subst scanToEndOfLine_loop.simps) simp
next
  case (Cons c cs)
  from read_Cons [OF Cons.prems(1)] obtain s1 where
    s1: "read s = ((c, False, None), s1)" "rest (reader s1) = cs"
    by blast
  with reachable_read [OF Cons.prems(2)] have r1: "reachable input s1"
    by simp
  show ?case
  proof (cases "c = 10")
    case True
    with s1 reachable_unread [OF r1] show ?thesis
      by (subst scanToEndOfLine_loop.simps) (auto split: prod.splits)
  next
    case False
    with s1 Cons.IH [OF s1(2) r1, of "buffer @ [c]"] show ?thesis
      by (subst scanToEndOfLine_loop.simps) simp
  qed
qed

lemma scanStringWord_loop_reachable:
  "rest (reader s) = cs \<Longrightarrow> reachable input s \<Longrightarrow>
   reachable input (snd (scanStringWord_loop escape buffer s))"
proof (induction cs arbitrary: s escape buffer)
  case Nil
  from read_Nil [OF Nil(1)] obtain s1 where r: "read s = ((0, True, None), s1)"
    by blast
  with reachable_read [OF Nil(2)] show ?case
    by (subst scanStringWord_loop.simps) simp
next
  case (Cons c cs)
  from read_Cons [OF Cons.prems(1)] obtain s1 where
    s1: "read s = ((c, False, None), s1)" "rest (reader s1) = cs"
    by blast
  with reachable_read [OF Cons.prems(2)] have r1: "reachable input s1"
    by simp
  show ?case
  proof (cases "\<not> escape \<and> c = 34")
    case True
    with s1 r1 show ?thesis
      by (subst scanStringWord_loop.simps) simp
  next
    case False
    have "scanStringWord_loop escape buffer s
            = scanStringWord_loop (\<not> escape \<and> c = 92) (buffer @ [c]) s1"
      using s1 False by (subst scanStringWord_loop.simps) auto
    with Cons.IH [OF s1(2) r1] show ?thesis
      by simp
  qed
qed

lemma scanWhiteSpace_loop_reachable:
  "rest (reader s) = cs \<Longrightarrow> reachable input s \<Longrightarrow>
   reachable input (snd (scanWhiteSpace_loop escape buffer s))"
proof (induction cs arbitrary: s escape buffer)
  case Nil
  from read_Nil [OF Nil(1)] obtain s1 where r: "read s = ((0, True, None), s1)"
    by blast
  with reachable_read [OF Nil(2)] show ?case
    by (subst scanWhiteSpace_loop.simps) simp
next
  case (Cons c cs)
  from read_Cons [OF Cons.prems(1)] obtain s1 where
    s1: "read s = ((c, False, None), s1)" "rest (reader s1) = cs"
    by blast
  with reachable_read [OF Cons.prems(2)] have r1: "reachable input s1"
    by simp
  obtain uerr1 s3 where u1: "unread s1 = (uerr1, s3)"
    by (metis surj_pair)
  with reachable_unread [OF r1] have r3: "reachable input s3"
    by simp
  show ?case
  proof (cases "c = 92")
    case True
    obtain nb perr s2 where p: "peek s1 = ((nb, perr), s2)"
      by (metis surj_pair)
    with reachable_peek [OF r1] have r2: "reachable input s2"
      by simp
    have s2: "rest (reader s2) = cs"
      using peek_state [OF p] s1(2) by simp
    obtain uerr2 s4 where u2: "unread s2 = (uerr2, s4)"
      by (metis surj_pair)
    with reachable_unread [OF r2] have r4: "reachable input s4"
      by simp
    show ?thesis
    proof (cases "perr \<noteq> None")
      case True
      with s1 p r2 \<open>c = 92\<close> show ?thesis
        by (subst scanWhiteSpace_loop.simps) auto
    next
      case False
      show ?thesis
      proof (cases "length nb = 1 \<and> nb ! 0 = 10")
        case True
        then have "scanWhiteSpace_loop escape buffer s = scanWhiteSpace_loop True buffer s2"
          using s1 p \<open>c = 92\<close> False by (subst scanWhiteSpace_loop.simps) simp
        with Cons.IH [OF s2 r2] show ?thesis by simp
      next
        case nomatch: False
        with s1 p u2 r4 \<open>c = 92\<close> False show ?thesis
          by (subst scanWhiteSpace_loop.simps) auto
      qed
    qed
  next
    case False
    note nbs = this
    show ?thesis
    proof (cases "c = 10")
      case True
      show ?thesis
      proof (cases escape)
        case True
        then have "scanWhiteSpace_loop escape buffer s = scanWhiteSpace_loop False buffer s1"
          using s1 \<open>c = 10\<close> by (subst scanWhiteSpace_loop.simps) simp
        with Cons.IH [OF s1(2) r1] show ?thesis by simp
      next
        case False
        with s1 u1 r3 \<open>c = 10\<close> show ?thesis
          by (subst scanWhiteSpace_loop.simps) auto
      qed
    next
      case False
      show ?thesis
      proof (cases "IsSpace c")
        case True
        then have "scanWhiteSpace_loop escape buffer s
                     = scanWhiteSpace_loop False (buffer @ [c]) s1"
          using s1 nbs False by (subst scanWhiteSpace_loop.simps) simp
        with Cons.IH [OF s1(2) r1] show ?thesis by simp
      next
        case nsp: False
        with s1 u1 r3 nbs False show ?thesis
          by (subst scanWhiteSpace_loop.simps) auto
      qed
    qed
  qed
qed

lemma scanWord_state:
  assumes "scanWord s = ((tok, e), s')" "reachable input s"
  shows "reachable input s' \<and> (\<forall>t. tok = Some t \<longrightarrow> endPos t = pos s')"
  using assms scanWord_loop_reachable [OF refl assms(2), of "[]"]
  by (auto simp: scanWord_def newToken_def split: prod.splits if_splits)

lemma scanToEndOfLine_state:
  assumes "scanToEndOfLine k s = ((tok, e), s')" "reachable input s"
  shows "reachable input s' \<and> (\<forall>t. tok = Some t \<longrightarrow> endPos t = pos s')"
  using assms scanToEndOfLine_loop_reachable [OF refl assms(2), of "[]"]
  by (auto simp: scanToEndOfLine_def newToken_def split: prod.splits if_splits)

lemma scanWhiteSpace_state:
  assumes "scanWhiteSpace s = ((tok, e), s')" "reachable input s"
  shows "reachable input s' \<and> (\<forall>t. tok = Some t \<longrightarrow> endPos t = pos s')"
  using assms scanWhiteSpace_loop_reachable [OF refl assms(2), of False "[]"]
  by (auto simp: scanWhiteSpace_def newToken_def split: prod.splits if_splits)

lemma scanStringWord_state:
  assumes "scanStringWord s = ((tok, e), s')" "reachable input s"
  shows "reachable input s' \<and> (\<forall>t. tok = Some t \<longrightarrow> endPos t = pos s')"
proof -
  obtain c eof err s1 where r: "read s = ((c, eof, err), s1)"
    by (metis prod_cases3 surj_pair)
  with reachable_read [OF assms(2)] have r1: "reachable input s1"
    by simp
  from scanStringWord_loop_reachable [OF refl r1, of False "[c]"] assms(1) r r1
  show ?thesis
    by (auto simp: scanStringWord_def newToken_def split: prod.splits if_splits)
qed


lemma Scan_switch_state:
  assumes "Scan_switch c eof err s1 = ((tok, e), s2)" "reachable input s1"
  shows "reachable input s2 \<and> (\<forall>t. tok = Some t \<longrightarrow> endPos t = pos s2)"
proof -
  obtain uerr s3 where u: "unread s1 = (uerr, s3)"
    by (metis surj_pair)
  with reachable_unread [OF assms(2)] have r3: "reachable input s3"
    by simp
  consider (stop) "err \<noteq> None \<or> eof \<or> c = 10"
    | (sp) "err = None" "\<not> eof" "c \<noteq> 10" "IsSpace c"
    | (hash) "err = None" "\<not> eof" "c \<noteq> 10" "\<not> IsSpace c" "c = 35"
    | (bang) "err = None" "\<not> eof" "c \<noteq> 10" "\<not> IsSpace c" "c = 33 \<or> c = 64"
    | (dash) "err = None" "\<not> eof" "c \<noteq> 10" "\<not> IsSpace c" "c = 45"
    | (quote) "err = None" "\<not> eof" "c \<noteq> 10" "\<not> IsSpace c" "c = 34"
    | (other) "err = None" "\<not> eof" "c \<noteq> 10" "\<not> IsSpace c" "c \<noteq> 35" "c \<noteq> 33"
        "c \<noteq> 64" "c \<noteq> 45" "c \<noteq> 34"
    by fastforce
  then show ?thesis
  proof cases
    case stop
    with assms show ?thesis
      by (auto simp: Scan_switch_def newToken_def split: if_splits)
  next
    case sp
    with assms u r3 show ?thesis
      by (auto simp: Scan_switch_def split: if_splits dest: scanWhiteSpace_state)
  next
    case hash
    with assms u r3 show ?thesis
      by (auto simp: Scan_switch_def scanComment_def split: if_splits
          dest: scanToEndOfLine_state)
  next
    case bang
    with assms u r3 show ?thesis
      by (auto simp: Scan_switch_def scanShellCommand_def split: if_splits
          dest: scanToEndOfLine_state)
  next
    case dash
    obtain nb perr s4 where p: "peek s1 = ((nb, perr), s4)"
      by (metis surj_pair)
    with reachable_peek [OF assms(2)] have r4: "reachable input s4"
      by simp
    obtain uerr2 s5 where u2: "unread s4 = (uerr2, s5)"
      by (metis surj_pair)
    with reachable_unread [OF r4] have r5: "reachable input s5"
      by simp
    obtain wtok werr s6 where w: "scanWord s4 = ((wtok, werr), s6)"
      by (metis surj_pair)
    note ws = scanWord_state [OF w r4]
    from dash assms(1) p r4 u2 r5 w ws show ?thesis
      by (auto simp: Scan_switch_def not_IsSpace_dash split: if_splits option.splits
          dest: scanWord_state)
  next
    case quote
    with assms u r3 show ?thesis
      by (auto simp: Scan_switch_def split: if_splits dest: scanStringWord_state)
  next
    case other
    with assms u r3 show ?thesis
      by (auto simp: Scan_switch_def split: if_splits dest: scanWord_state)
  qed
qed

lemma Scan_state:
  assumes "Scan s = ((tok, e), s')" "reachable input s"
  shows "reachable input s'
         \<and> (\<forall>t. tok = Some t \<longrightarrow> endPos t = pos s' \<and> startPos t = pos (snd (read s)))"
proof -
  obtain c eof err s1 where r: "read s = ((c, eof, err), s1)"
    by (metis prod_cases3 surj_pair)
  with reachable_read [OF assms(2)] have r1: "reachable input s1"
    by simp
  obtain tok0 e0 s2 where sw: "Scan_switch c eof err s1 = ((tok0, e0), s2)"
    by (metis surj_pair)
  from Scan_switch_state [OF sw r1] assms(1) r sw show ?thesis
    by (auto simp: Scan_def split: option.splits)
qed


lemma read_at_end_col:
  assumes "rest (reader s) = []"
  shows "col (pos (snd (read s))) \<noteq> 0"
  using assms by (simp add: read_def ReadRune_def Let_def)

lemma Scan_at_end_state:
  assumes "rest (reader s) = []"
  shows "snd (Scan s) = snd (read s)"
proof -
  from read_Nil [OF assms] obtain s1 where "read s = ((0, True, None), s1)"
    by blast
  then show ?thesis
    by (simp add: Scan_def Scan_switch_def)
qed

lemma Scan_col_at_end:
  assumes "reachable input s" "length input < 2 ^ 64"
    and "Scan s = ((tok, e), s1)" "rest (reader s1) = []"
  shows "col (pos s1) \<noteq> 0"
proof (cases "rest (reader s)")
  case Nil
  from Scan_at_end_state [OF Nil] read_at_end_col [OF Nil] assms(3) show ?thesis
    by simp
next
  case (Cons c cs)
  with reachable_empty [of s] assms(1) have ne: "input \<noteq> []"
    by auto
  from Scan_state [OF assms(3,1)] have "reachable input s1"
    by simp
  from reachable_tracked [OF this ne assms(2)] have "tracked input s1"
    by simp
  with assms(4) ne show ?thesis
    by (auto simp: tracked_def Let_def)
qed

lemma read_pos:
  assumes "rest (reader s) = c # cs"
  shows "pos (snd (read s)) =
           (if lastCharLineEnd s then \<lparr>line = line (pos s) + 1, col = 1\<rparr>
            else \<lparr>line = line (pos s), col = col (pos s) + 1\<rparr>)"
  using assms by (simp add: read_def ReadRune_def Let_def)

lemma read_pos_at_end:
  assumes "rest (reader s) = []" "col (pos s) \<noteq> 0"
  shows "pos (snd (read s)) = pos s"
  using assms by (simp add: read_def ReadRune_def Let_def)

lemma consumed_append: "rest (reader s) = rs \<Longrightarrow> consumed (pre @ rs) s = pre"
  by (simp add: consumed_def)

lemma lineEndKnown_iff:
  "lineEndKnown input s \<longleftrightarrow>
     (\<exists>pre. input = pre @ rest (reader s) \<and> (lastCharLineEnd s \<longleftrightarrow> pre \<noteq> [] \<and> last pre = 10))"
proof
  assume "lineEndKnown input s"
  then show "\<exists>pre. input = pre @ rest (reader s) \<and> (lastCharLineEnd s \<longleftrightarrow> pre \<noteq> [] \<and> last pre = 10)"
    unfolding lineEndKnown_def by blast
next
  assume "\<exists>pre. input = pre @ rest (reader s) \<and> (lastCharLineEnd s \<longleftrightarrow> pre \<noteq> [] \<and> last pre = 10)"
  then obtain pre where p: "input = pre @ rest (reader s)"
    "lastCharLineEnd s \<longleftrightarrow> pre \<noteq> [] \<and> last pre = 10"
    by blast
  from consumed_append [OF refl, of pre s] p(1) have "consumed input s = pre"
    by simp
  with p show "lineEndKnown input s"
    unfolding lineEndKnown_def by simp
qed

lemma lineEndKnown_cong:
  "rest (reader s') = rest (reader s) \<Longrightarrow> lastCharLineEnd s' = lastCharLineEnd s \<Longrightarrow>
   lineEndKnown input s' = lineEndKnown input s"
  by (simp add: lineEndKnown_iff)

lemma lineEndKnown_read:
  assumes "lineEndKnown input s" "read s = (r, s1)"
  shows "lineEndKnown input s1"
proof -
  from assms(1) obtain pre where p: "input = pre @ rest (reader s)"
    "lastCharLineEnd s \<longleftrightarrow> pre \<noteq> [] \<and> last pre = 10"
    unfolding lineEndKnown_iff by blast
  show ?thesis
  proof (cases "rest (reader s)")
    case Nil
    with assms(2) have "rest (reader s1) = []" "lastCharLineEnd s1 = lastCharLineEnd s"
      by (auto simp: read_def ReadRune_def Let_def split: if_splits)
    with p Nil show ?thesis
      unfolding lineEndKnown_iff by auto
  next
    case (Cons c cs)
    with assms(2) have "rest (reader s1) = cs" "lastCharLineEnd s1 = (c = 10)"
      by (auto simp: read_def ReadRune_def Let_def split: if_splits)
    with p Cons have "input = (pre @ [c]) @ rest (reader s1)"
      "lastCharLineEnd s1 \<longleftrightarrow> pre @ [c] \<noteq> [] \<and> last (pre @ [c]) = 10"
      by simp_all
    then show ?thesis
      unfolding lineEndKnown_iff by blast
  qed
qed

lemma reachable_lineEnd:
  assumes "reachable input s" "input \<noteq> []" "length input < 2 ^ 64"
  shows "lineEndKnown input s
         \<and> (lastRune (reader s) \<noteq> None \<longrightarrow>
              (\<exists>s0 c. tracked input s0 \<and> lineEndKnown input s0
                 \<and> read s0 = ((c, False, None), s)))"
  using assms
proof (induction rule: reachable.induct)
  case (reach_new strict)
  then show ?case
    by (simp add: lineEndKnown_iff NewConfigScanner_def)
next
  case (reach_read s r s')
  then have k: "lineEndKnown input s" by simp
  from reachable_tracked [OF reach_read.hyps(1) reach_read.prems] have t: "tracked input s"
    by simp
  from lineEndKnown_read [OF k reach_read.hyps(2)] have "lineEndKnown input s'" .
  moreover have "\<exists>s0 c. tracked input s0 \<and> lineEndKnown input s0
                   \<and> read s0 = ((c, False, None), s')"
    if "lastRune (reader s') \<noteq> None"
    using read_lastRune [OF reach_read.hyps(2) that] t k reach_read.hyps(2) by auto
  ultimately show ?case by blast
next
  case (reach_unread s e s')
  show ?case
  proof (cases "lastRune (reader s)")
    case None
    from unread_None [OF None] reach_unread show ?thesis by simp
  next
    case (Some c)
    with reach_unread obtain s0 c0 where
      s0: "tracked input s0" "lineEndKnown input s0" "read s0 = ((c0, False, None), s)"
      by auto
    from unread_lastRune [OF reach_unread.hyps(2)] Some
    have e: "e = None" "lastRune (reader s') = None"
      by simp_all
    from unread_read [OF s0(1) reach_unread.prems(2) s0(3)] reach_unread.hyps(2) e
    have "lastCharLineEnd s' = lastCharLineEnd s0" "rest (reader s') = rest (reader s0)"
      by simp_all
    from lineEndKnown_cong [OF this(2,1)] s0(2) e(2) show ?thesis
      by simp
  qed
next
  case (reach_peek s p s')
  from peek_state [OF reach_peek.hyps(2)] reach_peek.IH reach_peek.prems
    lineEndKnown_cong [of s' s input]
  show ?case by auto
qed

lemma reachable_empty_consumed:
  assumes "reachable [] s"
  shows "[] = consumed [] s @ rest (reader s)"
  using reachable_empty [OF assms] by (simp add: consumed_def)







text \<open>
  C2, as the specification states it, does not hold: \<^verbatim>\<open>startPos\<close> is the position
  of the first character of a token and \<^verbatim>\<open>endPos\<close> the position of its last one,
  so the next token starts one character after the end of the previous one. For the
  input \<open>a b\<close> the Word ends at column 1 and the WhiteSpace token starts at column 2.
\<close>

theorem C2_successive_tokens_not_contiguous:
  "ScanSeq 2 (NewConfigScanner True (runes ''a b'')) =
     [(Some \<lparr>tokenType = CtkWord, tokenValue = runes ''a'',
              startPos = \<lparr>line = 1, col = 1\<rparr>, endPos = \<lparr>line = 1, col = 1\<rparr>,
              tokenErr = None\<rparr>, None),
      (Some \<lparr>tokenType = CtkWhiteSpace, tokenValue = runes '' '',
              startPos = \<lparr>line = 1, col = 2\<rparr>, endPos = \<lparr>line = 1, col = 2\<rparr>,
              tokenErr = None\<rparr>, None)]
   \<and> endPos \<lparr>tokenType = CtkWord, tokenValue = runes ''a'',
              startPos = \<lparr>line = 1, col = 1\<rparr>, endPos = \<lparr>line = 1, col = 1\<rparr>,
              tokenErr = None\<rparr>
       \<noteq> startPos \<lparr>tokenType = CtkWhiteSpace, tokenValue = runes '' '',
              startPos = \<lparr>line = 1, col = 2\<rparr>, endPos = \<lparr>line = 1, col = 2\<rparr>,
              tokenErr = None\<rparr>"
  by code_simp

text \<open>
  C2, amended: for every input of fewer than \<open>2 ^ 64\<close> characters and every pair of
  tokens returned by two successive \<^verbatim>\<open>Scan\<close> calls on the same scanner, the second
  token's \<^verbatim>\<open>startPos\<close> equals the first token's \<^verbatim>\<open>endPos\<close> exactly when
  the second token is EOF; otherwise it is the position of the next character: column 1
  of the next line when the last character of the input consumed before the second call
  is a newline, and the same line and the next column when it is not.
\<close>

theorem C2_start_follows_end:
  assumes "reachable input s" "length input < 2 ^ 64"
    and "Scan s = ((Some t1, e1), s1)" "Scan s1 = ((Some t2, e2), s2)"
  shows "input = consumed input s1 @ rest (reader s1)
         \<and> startPos t2 =
             (if tokenType t2 = CtkEOF then endPos t1
              else if consumed input s1 \<noteq> [] \<and> last (consumed input s1) = 10
                then \<lparr>line = line (endPos t1) + 1, col = 1\<rparr>
              else \<lparr>line = line (endPos t1), col = col (endPos t1) + 1\<rparr>)
         \<and> (tokenType t2 \<noteq> CtkEOF \<longrightarrow> startPos t2 \<noteq> endPos t1)"
proof -
  from Scan_state [OF assms(3,1)] have r1: "reachable input s1" and e1: "endPos t1 = pos s1"
    by simp_all
  from Scan_state [OF assms(4) r1] have st: "startPos t2 = pos (snd (read s1))"
    by simp
  have whole: "input = consumed input s1 @ rest (reader s1)"
  proof (cases "input = []")
    case True
    with reachable_empty_consumed [of s1] r1 show ?thesis by simp
  next
    case False
    from reachable_lineEnd [OF r1 False assms(2)] show ?thesis
      by (simp add: lineEndKnown_def)
  qed
  show ?thesis
  proof (cases "rest (reader s1)")
    case Nil
    from Scan_at_end [OF Nil] assms(4) have "tokenType t2 = CtkEOF"
      by auto
    moreover from Scan_col_at_end [OF assms(1-3) Nil] have "pos (snd (read s1)) = pos s1"
      by (rule read_pos_at_end [OF Nil])
    ultimately show ?thesis
      using st e1 whole by simp
  next
    case (Cons c cs)
    with reachable_empty [of s1] r1 have ne: "input \<noteq> []"
      by auto
    from reachable_lineEnd [OF r1 ne assms(2)]
    have fl: "lastCharLineEnd s1 \<longleftrightarrow> consumed input s1 \<noteq> [] \<and> last (consumed input s1) = 10"
      by (simp add: lineEndKnown_def)
    from Cons Scan_result [OF assms(4)] have "tokenType t2 \<noteq> CtkEOF"
      by auto
    with read_pos [OF Cons] st e1 fl whole show ?thesis
      by (cases "pos s1") auto
  qed
qed


theorem C2_start_follows_end_witness:
  "(reachable [10, 98] (NewConfigScanner True [10, 98])
    \<and> length [10, 98 :: rune] < 2 ^ 64
    \<and> Scan (NewConfigScanner True [10, 98])
        = ((Some \<lparr>tokenType = CtkTerminator, tokenValue = [10],
                   startPos = \<lparr>line = 1, col = 1\<rparr>, endPos = \<lparr>line = 1, col = 1\<rparr>,
                   tokenErr = None\<rparr>, None),
           \<lparr>reader = \<lparr>rest = [98], lastRune = Some 10, peekResets = True\<rparr>,
            pos = \<lparr>line = 1, col = 1\<rparr>, lastCharLineEnd = True, lastLineEndCol = 0\<rparr>)
    \<and> Scan \<lparr>reader = \<lparr>rest = [98], lastRune = Some 10, peekResets = True\<rparr>,
             pos = \<lparr>line = 1, col = 1\<rparr>, lastCharLineEnd = True, lastLineEndCol = 0\<rparr>
        = ((Some \<lparr>tokenType = CtkWord, tokenValue = [98],
                   startPos = \<lparr>line = 2, col = 1\<rparr>, endPos = \<lparr>line = 2, col = 1\<rparr>,
                   tokenErr = None\<rparr>, None),
           \<lparr>reader = \<lparr>rest = [], lastRune = None, peekResets = True\<rparr>,
            pos = \<lparr>line = 2, col = 1\<rparr>, lastCharLineEnd = False, lastLineEndCol = 1\<rparr>))
   \<and> consumed [10, 98]
         \<lparr>reader = \<lparr>rest = [98], lastRune = Some 10, peekResets = True\<rparr>,
          pos = \<lparr>line = 1, col = 1\<rparr>, lastCharLineEnd = True, lastLineEndCol = 0\<rparr> = [10]
   \<and> startPos \<lparr>tokenType = CtkWord, tokenValue = [98],
                  startPos = \<lparr>line = 2, col = 1\<rparr>, endPos = \<lparr>line = 2, col = 1\<rparr>,
                  tokenErr = None\<rparr>
       = \<lparr>line = line (endPos \<lparr>tokenType = CtkTerminator, tokenValue = [10],
                  startPos = \<lparr>line = 1, col = 1\<rparr>, endPos = \<lparr>line = 1, col = 1\<rparr>,
                  tokenErr = None\<rparr>) + 1, col = 1\<rparr>"
  (is "(reachable ?input ?s \<and> ?len \<and> Scan ?s = ((Some ?t1, None), ?s1)
        \<and> Scan ?s1 = ((Some ?t2, None), ?s2))
       \<and> consumed ?input ?s1 = [10] \<and> startPos ?t2 = ?next")
proof -
  have reach: "reachable ?input ?s"
    by (rule reach_new)
  have len: ?len
    by simp
  have h3: "Scan ?s = ((Some ?t1, None), ?s1)"
    by code_simp
  have h4: "Scan ?s1 = ((Some ?t2, None), ?s2)"
    by code_simp
  have c: "consumed ?input ?s1 = [10]"
    by (simp add: consumed_def)
  have ty: "tokenType ?t2 \<noteq> CtkEOF"
    by simp
  from C2_start_follows_end [OF reach len h3 h4] have "startPos ?t2 = ?next"
    unfolding c using ty by simp
  with reach len h3 h4 c show ?thesis
    by blast
qed

end
